theory Spec2Isabelle
  imports Main
begin

text \<open>
  A shallow embedding of the thread-synchronisation primitives (semaphore, lock,
  condition variable, in both implementations of the repository) and of the elevator and
  building built on them, with the properties of the specification that were checked
  against it.
\<close>

text \<open>
  How a run stops short of its result: a failed \<^verbatim>\<open>ASSERT\<close>, a step asked of a thread that
  cannot take it, or a write outside the cells of an allocated array.
\<close>

datatype error = AssertionFailed | NotSchedulable | IndexOutOfBounds

section \<open>Semaphore, Lock and Condition\<close>

text \<open>
  The repository has two implementations of \<^verbatim>\<open>Lock\<close> and \<^verbatim>\<open>Condition\<close>: one on an
  explicit wait queue (the file with \<^verbatim>\<open>mutex\<close>, \<^verbatim>\<open>queue\<close> and \<^verbatim>\<open>firstLock\<close>) and one on
  a private \<^verbatim>\<open>Semaphore\<close> (\<^verbatim>\<open>synch-sem.cc\<close>); \<^verbatim>\<open>Semaphore\<close> is the same in both. Each is
  modelled as a machine whose state holds the objects and, for every thread, whether it
  sleeps and where it is suspended.

  Scheduling is cooperative (spec section 5): a thread runs until it sleeps, so the code
  between two suspension points is one atomic step. The steps are a thread calling an
  operation (from the call to its return or to the first \<^verbatim>\<open>Sleep\<close>) and a woken thread
  resuming after \<^verbatim>\<open>Sleep\<close> (to the return or to the next \<^verbatim>\<open>Sleep\<close>). A schedule is a
  list of such steps; any runnable thread may take the next one, which covers every order
  the scheduler may choose.
\<close>

type_synonym tid = nat
type_synonym lock_id = nat
type_synonym cond_id = nat
type_synonym sem_id = nat

text \<open>
  The wait queues are objects of class \<^verbatim>\<open>List\<close>, which is not among the sources. Spec
  section 3 calls them ordered queues of blocked-thread handles, section 5 first-in
  first-out.
\<close>

text \<open>Modelled from the spec: \<^verbatim>\<open>List::Append\<close> (not among the sources) adds the item at
  the end of the queue.\<close>

definition Append :: "'a \<Rightarrow> 'a list \<Rightarrow> 'a list" where
  "Append x q = q @ [x]"

text \<open>Modelled from the spec: \<^verbatim>\<open>List::Remove\<close> (not among the sources) takes the first
  item off the queue; on an empty queue it returns \<^verbatim>\<open>NULL\<close>, here \<open>None\<close>, as the
  callers' tests \<^verbatim>\<open>thread != NULL\<close> expect.\<close>

definition Remove :: "'a list \<Rightarrow> 'a option \<times> 'a list" where
  "Remove q = (case q of [] \<Rightarrow> (None, []) | x # r \<Rightarrow> (Some x, r))"

text \<open>Modelled from the spec: \<^verbatim>\<open>List::IsEmpty\<close> (not among the sources).\<close>

definition IsEmpty :: "'a list \<Rightarrow> bool" where
  "IsEmpty q = (q = [])"

text \<open>
  The scheduler is not among the sources either. Its state is the set of sleeping
  threads: \<open>sl t\<close> holds while thread \<open>t\<close> has gone to sleep and has not been made
  runnable since.
\<close>

type_synonym sched = "tid \<Rightarrow> bool"

text \<open>Modelled from the spec: \<^verbatim>\<open>Thread::Sleep\<close> (not among the sources; spec section 6,
  "park until explicitly made runnable").\<close>

definition Sleep :: "tid \<Rightarrow> sched \<Rightarrow> sched" where
  "Sleep t sl = sl(t := True)"

text \<open>Modelled from the spec: \<^verbatim>\<open>Scheduler::ReadyToRun\<close> (not among the sources; spec
  section 6, "make runnable").\<close>

definition ReadyToRun :: "tid \<Rightarrow> sched \<Rightarrow> sched" where
  "ReadyToRun t sl = sl(t := False)"

text \<open>
  Where a thread is: outside every operation (\<open>Idle\<close>), or suspended at the \<^verbatim>\<open>Sleep\<close>
  inside \<^verbatim>\<open>Semaphore::P\<close>, inside \<^verbatim>\<open>Lock::Acquire\<close> (the flag tells whether
  \<^verbatim>\<open>Condition::Wait\<close> called it) or inside \<^verbatim>\<open>Condition::Wait\<close>.

  \<open>acquired s l t\<close> records history and is read by no operation: it is set when an
  \<^verbatim>\<open>Acquire\<close> of lock \<open>l\<close> by thread \<open>t\<close> returns and cleared when \<open>t\<close> releases \<open>l\<close>.
\<close>

datatype place = Idle | InP sem_id | InAcquire lock_id bool | InWait cond_id lock_id

record threads =
  asleep :: sched
  place_of :: "tid \<Rightarrow> place"
  acquired :: "lock_id \<Rightarrow> tid \<Rightarrow> bool"

datatype 'c event = Call tid 'c | Resume tid

subsection \<open>Lock and Condition on wait queues\<close>

text \<open>
  \<^verbatim>\<open>ASSERT\<close> aborts the program: a failed assertion is \<open>Inl AssertionFailed\<close>. A step
  that the schedule asks of a thread that cannot take it (a call by a thread that is
  inside an operation or asleep, a resumption of a thread that is asleep or outside
  every operation) is \<open>Inl NotSchedulable\<close>.

  The fields called \<^verbatim>\<open>queue\<close> in the source are \<open>lock_queue\<close>, \<open>cond_queue\<close> and (for the
  semaphore) \<open>sem_queue\<close>; a thread pointer is a thread number, \<^verbatim>\<open>NULL\<close> is \<open>None\<close>, and a
  \<^verbatim>\<open>Lock*\<close> is a lock number.
\<close>

record Lock =
  mutex :: int
  lock_queue :: "tid list"
  heldByThread :: "tid option"

record Condition =
  firstLock :: "lock_id option"
  cond_queue :: "tid list"

record system = threads +
  locks :: "lock_id \<Rightarrow> Lock"
  conditions :: "cond_id \<Rightarrow> Condition"

definition Lock_new :: Lock where
  "Lock_new = \<lparr> mutex = 1, lock_queue = [], heldByThread = None \<rparr>"

definition Condition_new :: Condition where
  "Condition_new = \<lparr> firstLock = None, cond_queue = [] \<rparr>"

definition system_new :: system where
  "system_new =
     \<lparr> asleep = (\<lambda>t. False), place_of = (\<lambda>t. Idle), acquired = (\<lambda>l t. False),
       locks = (\<lambda>l. Lock_new), conditions = (\<lambda>c. Condition_new) \<rparr>"

definition isHeldByCurrentThread :: "tid \<Rightarrow> Lock \<Rightarrow> bool" where
  "isHeldByCurrentThread t L = (heldByThread L = Some t)"

text \<open>
  \<^verbatim>\<open>Lock::Acquire\<close> from the test of \<^verbatim>\<open>while(mutex==0)\<close>: where the call arrives after the
  assertion and where the thread continues after \<^verbatim>\<open>Sleep\<close>.
\<close>

definition Acquire_loop :: "tid \<Rightarrow> lock_id \<Rightarrow> bool \<Rightarrow> system \<Rightarrow> system" where
  "Acquire_loop t l fw s =
     (let L = locks s l
      in if mutex L = 0 then
           s\<lparr>locks := (locks s)(l := L\<lparr>lock_queue := Append t (lock_queue L)\<rparr>),
             asleep := Sleep t (asleep s),
             place_of := (place_of s)(t := InAcquire l fw)\<rparr>
         else
           s\<lparr>locks := (locks s)(l := L\<lparr>mutex := 0, heldByThread := Some t\<rparr>),
             place_of := (place_of s)(t := Idle),
             acquired := (acquired s)(l := (acquired s l)(t := True))\<rparr>)"

definition Lock_Acquire :: "tid \<Rightarrow> lock_id \<Rightarrow> bool \<Rightarrow> system \<Rightarrow> error + system" where
  "Lock_Acquire t l fw s =
     (if \<not> \<not> isHeldByCurrentThread t (locks s l) then Inl AssertionFailed
      else Inr (Acquire_loop t l fw s))"

definition Lock_Release :: "tid \<Rightarrow> lock_id \<Rightarrow> system \<Rightarrow> error + system" where
  "Lock_Release t l s =
     (if \<not> isHeldByCurrentThread t (locks s l) then Inl AssertionFailed
      else
        (let L = locks s l;
             (thread, q) = Remove (lock_queue L);
             L1 = L\<lparr>lock_queue := q, mutex := 1, heldByThread := None\<rparr>;
             s1 = s\<lparr>locks := (locks s)(l := L1),
                    acquired := (acquired s)(l := (acquired s l)(t := False))\<rparr>
         in Inr (case thread of
                   None \<Rightarrow> s1
                 | Some th \<Rightarrow> s1\<lparr>asleep := ReadyToRun th (asleep s1)\<rparr>)))"

text \<open>
  The first lines of \<^verbatim>\<open>Wait\<close>, \<^verbatim>\<open>Signal\<close> and \<^verbatim>\<open>Broadcast\<close>, the same in all three:
  bind \<^verbatim>\<open>firstLock\<close> if it is \<^verbatim>\<open>NULL\<close>, then the two assertions.
\<close>

definition Condition_check :: "tid \<Rightarrow> cond_id \<Rightarrow> lock_id \<Rightarrow> system \<Rightarrow> error + system" where
  "Condition_check t c l s =
     (let C = conditions s c;
          C1 = (if firstLock C = None then C\<lparr>firstLock := Some l\<rparr> else C);
          s1 = s\<lparr>conditions := (conditions s)(c := C1)\<rparr>
      in if \<not> firstLock C1 = Some l then Inl AssertionFailed
         else if \<not> isHeldByCurrentThread t (locks s1 l) then Inl AssertionFailed
         else Inr s1)"

definition Condition_Wait :: "tid \<Rightarrow> cond_id \<Rightarrow> lock_id \<Rightarrow> system \<Rightarrow> error + system" where
  "Condition_Wait t c l s =
     (case Condition_check t c l s of
        Inl e \<Rightarrow> Inl e
      | Inr s1 \<Rightarrow>
          (let C = conditions s1 c;
               s2 = s1\<lparr>conditions :=
                        (conditions s1)(c := C\<lparr>cond_queue := Append t (cond_queue C)\<rparr>)\<rparr>
           in case Lock_Release t l s2 of
                Inl e \<Rightarrow> Inl e
              | Inr s3 \<Rightarrow>
                  Inr (s3\<lparr>asleep := Sleep t (asleep s3),
                          place_of := (place_of s3)(t := InWait c l)\<rparr>)))"

definition Condition_Signal :: "tid \<Rightarrow> cond_id \<Rightarrow> lock_id \<Rightarrow> system \<Rightarrow> error + system" where
  "Condition_Signal t c l s =
     (case Condition_check t c l s of
        Inl e \<Rightarrow> Inl e
      | Inr s1 \<Rightarrow>
          (let C = conditions s1 c;
               (thread, q) = Remove (cond_queue C);
               s2 = s1\<lparr>conditions := (conditions s1)(c := C\<lparr>cond_queue := q\<rparr>)\<rparr>
           in Inr (case thread of
                     None \<Rightarrow> s2
                   | Some th \<Rightarrow> s2\<lparr>asleep := ReadyToRun th (asleep s2)\<rparr>)))"

text \<open>\<^verbatim>\<open>while(!queue->IsEmpty()){ thread = Remove(); ReadyToRun(thread); }\<close>\<close>

fun wake_all :: "tid list \<Rightarrow> sched \<Rightarrow> tid list \<times> sched" where
  "wake_all [] sl = ([], sl)"
| "wake_all (th # q) sl = wake_all q (ReadyToRun th sl)"

definition Condition_Broadcast :: "tid \<Rightarrow> cond_id \<Rightarrow> lock_id \<Rightarrow> system \<Rightarrow> error + system" where
  "Condition_Broadcast t c l s =
     (case Condition_check t c l s of
        Inl e \<Rightarrow> Inl e
      | Inr s1 \<Rightarrow>
          (let C = conditions s1 c;
               (q, sl) = wake_all (cond_queue C) (asleep s1)
           in Inr (s1\<lparr>conditions := (conditions s1)(c := C\<lparr>cond_queue := q\<rparr>),
                      asleep := sl\<rparr>)))"

datatype request =
    Acquire lock_id
  | Release lock_id
  | Wait cond_id lock_id
  | Signal cond_id lock_id
  | Broadcast cond_id lock_id

fun step :: "system \<Rightarrow> request event \<Rightarrow> error + system" where
  "step s (Call t r) =
     (if place_of s t \<noteq> Idle \<or> asleep s t then Inl NotSchedulable
      else (case r of
              Acquire l \<Rightarrow> Lock_Acquire t l False s
            | Release l \<Rightarrow> Lock_Release t l s
            | Wait c l \<Rightarrow> Condition_Wait t c l s
            | Signal c l \<Rightarrow> Condition_Signal t c l s
            | Broadcast c l \<Rightarrow> Condition_Broadcast t c l s))"
| "step s (Resume t) =
     (if asleep s t then Inl NotSchedulable
      else (case place_of s t of
              Idle \<Rightarrow> Inl NotSchedulable
            | InP k \<Rightarrow> Inl NotSchedulable
            | InAcquire l fw \<Rightarrow> Inr (Acquire_loop t l fw s)
            | InWait c l \<Rightarrow> Lock_Acquire t l True s))"

fun exec :: "request event list \<Rightarrow> system \<Rightarrow> error + system" where
  "exec [] s = Inr s"
| "exec (e # es) s = (case step s e of Inl x \<Rightarrow> Inl x | Inr s' \<Rightarrow> exec es s')"

subsection \<open>Semaphore; Lock and Condition on semaphores\<close>

text \<open>
  The classes of \<^verbatim>\<open>synch-sem.cc\<close>. Its \<^verbatim>\<open>Lock\<close> and \<^verbatim>\<open>Condition\<close> are \<open>SemLock\<close> and
  \<open>SemCondition\<close> here, the semaphore's field \<^verbatim>\<open>value\<close> is \<open>sem_value\<close> and the lock's
  \<^verbatim>\<open>heldByThread\<close> is \<open>sem_heldByThread\<close>. A plain semaphore is created with any initial
  value, a lock's semaphore with 1 and a condition's with 0.
\<close>

record Semaphore =
  sem_value :: int
  sem_queue :: "tid list"

record SemLock =
  semLock :: Semaphore
  sem_heldByThread :: "tid option"

record SemCondition =
  semCond :: Semaphore

record sem_system = threads +
  semaphores :: "sem_id \<Rightarrow> Semaphore"
  sem_locks :: "lock_id \<Rightarrow> SemLock"
  sem_conditions :: "cond_id \<Rightarrow> SemCondition"

definition Semaphore_new :: "int \<Rightarrow> Semaphore" where
  "Semaphore_new initialValue = \<lparr> sem_value = initialValue, sem_queue = [] \<rparr>"

definition SemLock_new :: SemLock where
  "SemLock_new = \<lparr> semLock = Semaphore_new 1, sem_heldByThread = None \<rparr>"

definition SemCondition_new :: SemCondition where
  "SemCondition_new = \<lparr> semCond = Semaphore_new 0 \<rparr>"

definition sem_system_new :: "(sem_id \<Rightarrow> int) \<Rightarrow> sem_system" where
  "sem_system_new initialValue =
     \<lparr> asleep = (\<lambda>t. False), place_of = (\<lambda>t. Idle), acquired = (\<lambda>l t. False),
       semaphores = (\<lambda>k. Semaphore_new (initialValue k)),
       sem_locks = (\<lambda>l. SemLock_new), sem_conditions = (\<lambda>c. SemCondition_new) \<rparr>"

text \<open>
  \<^verbatim>\<open>Semaphore::P\<close> from the test of \<^verbatim>\<open>while (value == 0)\<close>: the first component of the
  result tells whether the thread went to sleep (it will run this again when woken) or
  took the value and returned.
\<close>

definition Semaphore_P :: "tid \<Rightarrow> Semaphore \<times> sched \<Rightarrow> bool \<times> Semaphore \<times> sched" where
  "Semaphore_P t m =
     (case m of (sem, sl) \<Rightarrow>
        if sem_value sem = 0 then
          (True, sem\<lparr>sem_queue := Append t (sem_queue sem)\<rparr>, Sleep t sl)
        else (False, sem\<lparr>sem_value := sem_value sem - 1\<rparr>, sl))"

text \<open>
  \<^verbatim>\<open>Semaphore::V\<close>, statement by statement. \<open>V_steps m\<close> lists the states after
  \<^verbatim>\<open>thread = queue->Remove();\<close>, after
  \<^verbatim>\<open>if (thread != NULL) scheduler->ReadyToRun(thread);\<close> and after \<^verbatim>\<open>value++;\<close>.
  The three run with interrupts off, so other threads see only the last state, which is
  \<open>Semaphore_V m\<close>.
\<close>

definition V_steps :: "Semaphore \<times> sched \<Rightarrow> (Semaphore \<times> sched) list" where
  "V_steps m =
     (case m of (sem, sl) \<Rightarrow>
        (let (thread, q) = Remove (sem_queue sem);
             m1 = (sem\<lparr>sem_queue := q\<rparr>, sl);
             m2 = (case thread of None \<Rightarrow> m1 | Some th \<Rightarrow> (fst m1, ReadyToRun th (snd m1)));
             m3 = ((fst m2)\<lparr>sem_value := sem_value (fst m2) + 1\<rparr>, snd m2)
         in [m1, m2, m3]))"

definition Semaphore_V :: "Semaphore \<times> sched \<Rightarrow> Semaphore \<times> sched" where
  "Semaphore_V m = last (V_steps m)"

definition P_call :: "tid \<Rightarrow> sem_id \<Rightarrow> sem_system \<Rightarrow> sem_system" where
  "P_call t k s =
     (case Semaphore_P t (semaphores s k, asleep s) of (blocked, sem, sl) \<Rightarrow>
        s\<lparr>semaphores := (semaphores s)(k := sem),
          asleep := sl,
          place_of := (place_of s)(t := (if blocked then InP k else Idle))\<rparr>)"

definition V_call :: "sem_id \<Rightarrow> sem_system \<Rightarrow> sem_system" where
  "V_call k s =
     (case Semaphore_V (semaphores s k, asleep s) of (sem, sl) \<Rightarrow>
        s\<lparr>semaphores := (semaphores s)(k := sem), asleep := sl\<rparr>)"

text \<open>\<^verbatim>\<open>Lock::Acquire\<close> of \<^verbatim>\<open>synch-sem.cc\<close> from the loop test of \<^verbatim>\<open>semLock->P()\<close> on.\<close>

definition SemLock_Acquire_P :: "tid \<Rightarrow> lock_id \<Rightarrow> bool \<Rightarrow> sem_system \<Rightarrow> sem_system" where
  "SemLock_Acquire_P t l fw s =
     (let L = sem_locks s l
      in case Semaphore_P t (semLock L, asleep s) of (blocked, sem, sl) \<Rightarrow>
           if blocked then
             s\<lparr>sem_locks := (sem_locks s)(l := L\<lparr>semLock := sem\<rparr>),
               asleep := sl,
               place_of := (place_of s)(t := InAcquire l fw)\<rparr>
           else
             s\<lparr>sem_locks := (sem_locks s)(l := L\<lparr>semLock := sem, sem_heldByThread := Some t\<rparr>),
               asleep := sl,
               place_of := (place_of s)(t := Idle),
               acquired := (acquired s)(l := (acquired s l)(t := True))\<rparr>)"

definition SemLock_Acquire :: "tid \<Rightarrow> lock_id \<Rightarrow> bool \<Rightarrow> sem_system \<Rightarrow> error + sem_system" where
  "SemLock_Acquire t l fw s =
     (if \<not> \<not> sem_heldByThread (sem_locks s l) = Some t then Inl AssertionFailed
      else Inr (SemLock_Acquire_P t l fw s))"

definition SemLock_Release :: "tid \<Rightarrow> lock_id \<Rightarrow> sem_system \<Rightarrow> error + sem_system" where
  "SemLock_Release t l s =
     (if \<not> sem_heldByThread (sem_locks s l) = Some t then Inl AssertionFailed
      else
        (let L1 = (sem_locks s l)\<lparr>sem_heldByThread := None\<rparr>;
             s1 = s\<lparr>sem_locks := (sem_locks s)(l := L1),
                    acquired := (acquired s)(l := (acquired s l)(t := False))\<rparr>
         in if sem_value (semLock L1) = 0 then
              (case Semaphore_V (semLock L1, asleep s1) of (sem, sl) \<Rightarrow>
                 Inr (s1\<lparr>sem_locks := (sem_locks s1)(l := L1\<lparr>semLock := sem\<rparr>),
                         asleep := sl\<rparr>))
            else Inr s1))"

text \<open>\<^verbatim>\<open>Condition::Wait\<close> of \<^verbatim>\<open>synch-sem.cc\<close> from the loop test of \<^verbatim>\<open>semCond->P()\<close> on:
  when the semaphore is taken, \<^verbatim>\<open>conditionLock->Acquire()\<close> follows.\<close>

definition SemCondition_Wait_P ::
  "tid \<Rightarrow> cond_id \<Rightarrow> lock_id \<Rightarrow> sem_system \<Rightarrow> error + sem_system" where
  "SemCondition_Wait_P t c l s =
     (let C = sem_conditions s c
      in case Semaphore_P t (semCond C, asleep s) of (blocked, sem, sl) \<Rightarrow>
           (let s1 = s\<lparr>sem_conditions := (sem_conditions s)(c := C\<lparr>semCond := sem\<rparr>),
                       asleep := sl\<rparr>
            in if blocked then Inr (s1\<lparr>place_of := (place_of s1)(t := InWait c l)\<rparr>)
               else SemLock_Acquire t l True s1))"

definition SemCondition_Wait ::
  "tid \<Rightarrow> cond_id \<Rightarrow> lock_id \<Rightarrow> sem_system \<Rightarrow> error + sem_system" where
  "SemCondition_Wait t c l s =
     (if \<not> sem_heldByThread (sem_locks s l) = Some t then Inl AssertionFailed
      else (case SemLock_Release t l s of
              Inl e \<Rightarrow> Inl e
            | Inr s1 \<Rightarrow> SemCondition_Wait_P t c l s1))"

text \<open>\<^verbatim>\<open>if(semCond->value>1) semCond->value=1;\<close>\<close>

definition clamp_to_one :: "Semaphore \<Rightarrow> Semaphore" where
  "clamp_to_one sem = (if sem_value sem > 1 then sem\<lparr>sem_value := 1\<rparr> else sem)"

definition SemCondition_Signal ::
  "tid \<Rightarrow> cond_id \<Rightarrow> lock_id \<Rightarrow> sem_system \<Rightarrow> error + sem_system" where
  "SemCondition_Signal t c l s =
     (if \<not> sem_heldByThread (sem_locks s l) = Some t then Inl AssertionFailed
      else
        (let C = sem_conditions s c;
             (sem, sl) = (if \<not> IsEmpty (sem_queue (semCond C))
                          then Semaphore_V (semCond C, asleep s)
                          else (semCond C, asleep s))
         in Inr (s\<lparr>sem_conditions := (sem_conditions s)(c := C\<lparr>semCond := clamp_to_one sem\<rparr>),
                    asleep := sl\<rparr>)))"

text \<open>\<^verbatim>\<open>while(!semCond->queue->IsEmpty()){ semCond->V(); ++i; }\<close> (the counter \<^verbatim>\<open>i\<close> is
  only printed). Every \<^verbatim>\<open>V\<close> on a non-empty queue shortens it, so the loop ends.\<close>

lemma Semaphore_V_shorter:
  "\<not> IsEmpty (sem_queue (fst m)) \<Longrightarrow>
   length (sem_queue (fst (Semaphore_V m))) < length (sem_queue (fst m))"
  by (cases m)
    (auto simp: Semaphore_V_def V_steps_def Remove_def IsEmpty_def Let_def
      split: list.splits prod.splits)

function Broadcast_loop :: "Semaphore \<times> sched \<Rightarrow> Semaphore \<times> sched" where
  "Broadcast_loop m =
     (if \<not> IsEmpty (sem_queue (fst m)) then Broadcast_loop (Semaphore_V m) else m)"
  by pat_completeness auto
termination
  by (relation "measure (\<lambda>m. length (sem_queue (fst m)))") (auto simp: Semaphore_V_shorter)

declare Broadcast_loop.simps [simp del]

definition SemCondition_Broadcast ::
  "tid \<Rightarrow> cond_id \<Rightarrow> lock_id \<Rightarrow> sem_system \<Rightarrow> error + sem_system" where
  "SemCondition_Broadcast t c l s =
     (if \<not> sem_heldByThread (sem_locks s l) = Some t then Inl AssertionFailed
      else
        (let C = sem_conditions s c;
             (sem, sl) = Broadcast_loop (semCond C, asleep s)
         in Inr (s\<lparr>sem_conditions := (sem_conditions s)(c := C\<lparr>semCond := clamp_to_one sem\<rparr>),
                    asleep := sl\<rparr>)))"

datatype sem_request =
    SemP sem_id
  | SemV sem_id
  | SemAcquire lock_id
  | SemRelease lock_id
  | SemWait cond_id lock_id
  | SemSignal cond_id lock_id
  | SemBroadcast cond_id lock_id

fun sem_step :: "sem_system \<Rightarrow> sem_request event \<Rightarrow> error + sem_system" where
  "sem_step s (Call t r) =
     (if place_of s t \<noteq> Idle \<or> asleep s t then Inl NotSchedulable
      else (case r of
              SemP k \<Rightarrow> Inr (P_call t k s)
            | SemV k \<Rightarrow> Inr (V_call k s)
            | SemAcquire l \<Rightarrow> SemLock_Acquire t l False s
            | SemRelease l \<Rightarrow> SemLock_Release t l s
            | SemWait c l \<Rightarrow> SemCondition_Wait t c l s
            | SemSignal c l \<Rightarrow> SemCondition_Signal t c l s
            | SemBroadcast c l \<Rightarrow> SemCondition_Broadcast t c l s))"
| "sem_step s (Resume t) =
     (if asleep s t then Inl NotSchedulable
      else (case place_of s t of
              Idle \<Rightarrow> Inl NotSchedulable
            | InP k \<Rightarrow> Inr (P_call t k s)
            | InAcquire l fw \<Rightarrow> Inr (SemLock_Acquire_P t l fw s)
            | InWait c l \<Rightarrow> SemCondition_Wait_P t c l s))"

fun sem_exec :: "sem_request event list \<Rightarrow> sem_system \<Rightarrow> error + sem_system" where
  "sem_exec [] s = Inr s"
| "sem_exec (e # es) s = (case sem_step s e of Inl x \<Rightarrow> Inl x | Inr s' \<Rightarrow> sem_exec es s')"

subsection \<open>Predicates of the statements\<close>

text \<open>
  \<open>exclusive a l\<close>: at most one thread has acquired lock \<open>l\<close>; \<open>vacant a l\<close>: none has.
  \<open>lock_ok\<close> and \<open>sem_lock_ok\<close> are the invariants that tie the history to the fields of
  the two kinds of lock. \<open>no_tokens\<close> starts every plain semaphore at 0; \<open>one_waiter\<close>
  is the state with thread 1 blocked in \<^verbatim>\<open>P\<close> on semaphore 0; \<open>one_bound\<close> has
  thread 1 waiting on condition 0 with lock 0 and thread 2 holding lock 1;
  \<open>two_waiters\<close> has threads 1 and 2 waiting on condition 0 and thread 3 holding its
  lock 0.
\<close>

definition exclusive :: "(lock_id \<Rightarrow> tid \<Rightarrow> bool) \<Rightarrow> lock_id \<Rightarrow> bool" where
  "exclusive a l = (\<forall>t u. a l t \<and> a l u \<longrightarrow> t = u)"

definition vacant :: "(lock_id \<Rightarrow> tid \<Rightarrow> bool) \<Rightarrow> lock_id \<Rightarrow> bool" where
  "vacant a l = (\<forall>t. \<not> a l t)"

definition lock_ok :: "system \<Rightarrow> lock_id \<Rightarrow> bool" where
  "lock_ok s l =
     ((mutex (locks s l) = 0 \<longleftrightarrow> heldByThread (locks s l) \<noteq> None) \<and>
      (\<forall>t. acquired s l t \<longleftrightarrow> heldByThread (locks s l) = Some t))"

definition sem_lock_ok :: "sem_system \<Rightarrow> lock_id \<Rightarrow> bool" where
  "sem_lock_ok s l =
     ((sem_value (semLock (sem_locks s l)) = 0 \<or> sem_value (semLock (sem_locks s l)) = 1) \<and>
      (sem_value (semLock (sem_locks s l)) = 0 \<longleftrightarrow> sem_heldByThread (sem_locks s l) \<noteq> None) \<and>
      (\<forall>t. acquired s l t \<longleftrightarrow> sem_heldByThread (sem_locks s l) = Some t))"

text \<open>
  \<open>no_P k s evs\<close>: along the schedule \<open>evs\<close> run from \<open>s\<close>, no step is a \<^verbatim>\<open>P\<close> on
  semaphore \<open>k\<close>, neither a call of \<^verbatim>\<open>P\<close> nor the resumption of a thread suspended
  inside \<^verbatim>\<open>P\<close>.
\<close>

fun no_P :: "sem_id \<Rightarrow> sem_system \<Rightarrow> sem_request event list \<Rightarrow> bool" where
  "no_P k s [] = True"
| "no_P k s (ev # evs) =
     ((case ev of Call v r \<Rightarrow> r \<noteq> SemP k | Resume v \<Rightarrow> place_of s v \<noteq> InP k) \<and>
      (case sem_step s ev of Inl e \<Rightarrow> True | Inr s' \<Rightarrow> no_P k s' evs))"

definition no_tokens :: "sem_id \<Rightarrow> int" where
  "no_tokens = (\<lambda>k. 0)"

definition one_waiter :: sem_system where
  "one_waiter = P_call 1 0 (sem_system_new no_tokens)"

definition one_bound :: system where
  "one_bound =
     (case exec [Call 1 (Acquire 0), Call 1 (Wait 0 0), Call 2 (Acquire 1)] system_new of
        Inl e \<Rightarrow> system_new
      | Inr s \<Rightarrow> s)"

definition two_waiters :: system where
  "two_waiters =
     (case exec [Call 1 (Acquire 0), Call 1 (Wait 0 0), Call 2 (Acquire 0), Call 2 (Wait 0 0),
                 Call 3 (Acquire 0)] system_new of
        Inl e \<Rightarrow> system_new
      | Inr s \<Rightarrow> s)"

lemmas queue_model = Remove_def Append_def IsEmpty_def Sleep_def ReadyToRun_def Let_def

lemmas lock_model = system_new_def Lock_new_def Condition_new_def isHeldByCurrentThread_def
  Acquire_loop_def Lock_Acquire_def Lock_Release_def Condition_check_def Condition_Wait_def
  Condition_Signal_def Condition_Broadcast_def

lemmas sem_model = sem_system_new_def SemLock_new_def SemCondition_new_def Semaphore_new_def
  no_tokens_def P_call_def V_call_def Semaphore_P_def Semaphore_V_def V_steps_def
  SemLock_Acquire_def SemLock_Acquire_P_def SemLock_Release_def SemCondition_Wait_def
  SemCondition_Wait_P_def SemCondition_Signal_def SemCondition_Broadcast_def clamp_to_one_def
  Broadcast_loop.simps

section \<open>Elevator and Building\<close>

text \<open>
  The elevator source (\<^verbatim>\<open>Elevator::\<close> and \<^verbatim>\<open>Building::\<close> methods) works on two
  objects that point at each other. A \<open>world\<close> is one elevator wired to its building, as
  \<^verbatim>\<open>Building::Building\<close> leaves it after \<^verbatim>\<open>SetBuilding(this)\<close>, together with the global
  \<^verbatim>\<open>capacity\<close>.

  C++ \<^verbatim>\<open>int\<close> is modelled as \<open>int\<close>: no counter of this program comes near
  \<open>2 ^ 31\<close> in the runs considered, and signed overflow is undefined in C++ anyway.
  The arrays are maps from the index to the stored \<^verbatim>\<open>int\<close>. \<^verbatim>\<open>floorCalled\<close>,
  \<^verbatim>\<open>floorCalledUp\<close> and \<^verbatim>\<open>floorCalledDown\<close> are members declared in the header,
  which is not among the sources, so their sizes are not known here. The two registries
  \<^verbatim>\<open>elevatorUpID\<close> and \<^verbatim>\<open>elevatorDownID\<close> are allocated by the constructor with
  \<^verbatim>\<open>new int[numFloors]\<close>: \<open>registrySize\<close> is the number of cells of each, the valid
  indices being \<open>0 .. registrySize - 1\<close>. A write to a registry outside these is
  undefined behaviour in C++; the model stops there with \<open>Inl IndexOutOfBounds\<close>.

  The records hold the fields the methods compute with. The debug names, the pointer
  from the elevator to its building (the pairing in \<open>world\<close>) and the objects whose
  classes are elsewhere (the event barriers, the building's locks and its condition) are
  not fields: calls into them are recorded in the trace below.

  \<^verbatim>\<open>ASSERT\<close> aborts the program: a failed assertion is the value \<open>Inl AssertionFailed\<close>.
\<close>

record Elevator =
  currentfloor :: int
  occupancy :: int
  floorCounts :: int
  elevatorID :: int
  dir :: int
  floorCalled :: "int \<Rightarrow> int"

record Building =
  floorCalledUp :: "int \<Rightarrow> int"
  floorCalledDown :: "int \<Rightarrow> int"
  riderRequest :: int
  elevatorUpID :: "int \<Rightarrow> int"
  elevatorDownID :: "int \<Rightarrow> int"
  registrySize :: int

text \<open>
  The direction codes, as \<^verbatim>\<open>Elevator::Operating\<close> comments them:
  \<^verbatim>\<open>if (dir==1) //UP\<close> and \<^verbatim>\<open>else if (dir==0)//DOWN\<close>.
\<close>

definition UP :: int where
  "UP = 1"

definition DOWN :: int where
  "DOWN = 0"

text \<open>
  What the methods do outside the two objects is written to a trace, in program order:
  the \<^verbatim>\<open>DEBUG('E', ...)\<close> messages (with the numbers they print) and the calls into the
  collaborators whose source is elsewhere (event barriers, the alarm, the scheduler, the
  locks and the condition). \<open>waiters w b\<close> is what \<^verbatim>\<open>Waiters()\<close> of barrier \<open>b\<close> returns
  in world \<open>w\<close>; \<open>ticks\<close> counts the suspensions of the elevator's thread.
\<close>

datatype barrier = ExitBar int | EnterBarUp int | EnterBarDown int

datatype lockname = UpIDLock | DownIDLock | BuildingLock

datatype message =
    MsgOpenDoors int int
  | MsgCloseDoors int int
  | MsgOperating int int
  | MsgArrived int int
  | MsgEnter int int
  | MsgFull int int
  | MsgExit int int
  | MsgRequestFloor int

datatype occurrence =
    Debug message
  | AlarmPause int
  | ThreadYield
  | BarSignal barrier
  | BarComplete barrier
  | BarWait barrier
  | LockAcquire lockname
  | LockRelease lockname
  | CondBroadcast

record world =
  elev :: Elevator
  building :: Building
  capacity :: int
  waiters :: "barrier \<Rightarrow> int"
  trace :: "occurrence list"
  ticks :: nat

definition emit :: "occurrence \<Rightarrow> world \<Rightarrow> world" where
  "emit a w = w\<lparr>trace := trace w @ [a]\<rparr>"

subsection \<open>Constructors\<close>

text \<open>
  \<^verbatim>\<open>for (i=1;i<=numFloors;i++) floorCalled[i] = 0;\<close> The other cells keep whatever the
  memory held (\<open>mem\<close>).
\<close>

function clear_from :: "int \<Rightarrow> int \<Rightarrow> (int \<Rightarrow> int) \<Rightarrow> (int \<Rightarrow> int)" where
  "clear_from i numFloors a =
     (if i \<le> numFloors then clear_from (i + 1) numFloors (a(i := 0)) else a)"
  by pat_completeness auto
termination
  by (relation "measure (\<lambda>(i, numFloors, a). nat (numFloors + 1 - i))") auto

declare clear_from.simps [simp del]

definition zero_mem :: "int \<Rightarrow> int" where
  "zero_mem = (\<lambda>i. 0)"

definition Elevator_new :: "int \<Rightarrow> int \<Rightarrow> (int \<Rightarrow> int) \<Rightarrow> Elevator" where
  "Elevator_new numFloors myID mem =
     \<lparr> currentfloor = 1,
       occupancy = 0,
       floorCounts = numFloors,
       elevatorID = myID,
       dir = 0,
       floorCalled = clear_from 1 numFloors mem \<rparr>"

text \<open>
  \<^verbatim>\<open>Building::Building\<close>: the two registries come from \<^verbatim>\<open>new int[numFloors]\<close>
  (\<open>numFloors\<close> cells each) and are not initialised; the call flags of floors
  \<open>1..numFloors\<close> are cleared.
\<close>

definition Building_new :: "int \<Rightarrow> (int \<Rightarrow> int) \<Rightarrow> Building" where
  "Building_new numFloors mem =
     \<lparr> floorCalledUp = clear_from 1 numFloors mem,
       floorCalledDown = clear_from 1 numFloors mem,
       riderRequest = 0,
       elevatorUpID = mem,
       elevatorDownID = mem,
       registrySize = numFloors \<rparr>"

definition world_new :: "int \<Rightarrow> int \<Rightarrow> (int \<Rightarrow> int) \<Rightarrow> world" where
  "world_new numFloors cap mem =
     \<lparr> elev = Elevator_new numFloors 0 mem,
       building = Building_new numFloors mem,
       capacity = cap,
       waiters = (\<lambda>b. 0),
       trace = [],
       ticks = 0 \<rparr>"

subsection \<open>Rider operations\<close>

text \<open>
  Each rider operation writes the shared fields first and calls a barrier (and possibly
  \<^verbatim>\<open>Yield\<close>) last, so under the cooperative scheduler its writes are one atomic step:
  the model returns the state after the writes and appends the calls to the trace.
\<close>

definition Enter :: "world \<Rightarrow> error + (bool \<times> world)" where
  "Enter w =
     (let w1 = w\<lparr>building := (building w)\<lparr>riderRequest := riderRequest (building w) - 1\<rparr>\<rparr>;
          cf = currentfloor (elev w1);
          ident = elevatorID (elev w1)
      in if \<not> riderRequest (building w1) \<ge> 0 then Inl AssertionFailed
         else if occupancy (elev w1) < capacity w1 then
           (let w2 = emit (Debug (MsgEnter ident cf))
                       (w1\<lparr>elev := (elev w1)\<lparr>occupancy := occupancy (elev w1) + 1\<rparr>\<rparr>)
            in if dir (elev w2) = 1 then
                 Inr (True, emit (BarComplete (EnterBarUp cf))
                   (w2\<lparr>building := (building w2)
                        \<lparr>floorCalledUp := (floorCalledUp (building w2))(cf := 0)\<rparr>\<rparr>))
               else
                 Inr (True, emit (BarComplete (EnterBarDown cf))
                   (w2\<lparr>building := (building w2)
                        \<lparr>floorCalledDown := (floorCalledDown (building w2))(cf := 0)\<rparr>\<rparr>)))
         else
           (let w2 = emit (Debug (MsgFull ident cf)) w1;
                w3 = (if dir (elev w2) = 1 then
                        emit (BarComplete (EnterBarUp cf))
                          (w2\<lparr>building := (building w2)
                               \<lparr>floorCalledDown := (floorCalledDown (building w2))(cf := 0)\<rparr>\<rparr>)
                      else
                        emit (BarComplete (EnterBarDown cf))
                          (w2\<lparr>building := (building w2)
                               \<lparr>floorCalledDown := (floorCalledDown (building w2))(cf := 0)\<rparr>\<rparr>))
            in Inr (False, emit ThreadYield w3)))"

definition Exit :: "world \<Rightarrow> world" where
  "Exit w =
     (let w1 = w\<lparr>elev := (elev w)\<lparr>occupancy := occupancy (elev w) - 1\<rparr>\<rparr>;
          cf = currentfloor (elev w1)
      in emit (BarComplete (ExitBar cf))
           (emit (Debug (MsgExit (elevatorID (elev w1)) cf)) w1))"

definition RequestFloor :: "int \<Rightarrow> world \<Rightarrow> world" where
  "RequestFloor floor w =
     emit (BarWait (ExitBar floor))
       (emit (Debug (MsgRequestFloor floor))
          (w\<lparr>elev := (elev w)\<lparr>floorCalled := (floorCalled (elev w))(floor := 1)\<rparr>\<rparr>))"

definition CallUp :: "int \<Rightarrow> world \<Rightarrow> world" where
  "CallUp fromFloor w =
     (let b = building w;
          b1 = b\<lparr>riderRequest := riderRequest b + 1\<rparr>;
          b2 = b1\<lparr>floorCalledUp := (floorCalledUp b1)(fromFloor := 1)\<rparr>
      in emit (LockRelease BuildingLock)
           (emit CondBroadcast (emit (LockAcquire BuildingLock) (w\<lparr>building := b2\<rparr>))))"

definition CallDown :: "int \<Rightarrow> world \<Rightarrow> world" where
  "CallDown fromFloor w =
     (let b = building w;
          b1 = b\<lparr>riderRequest := riderRequest b + 1\<rparr>;
          b2 = b1\<lparr>floorCalledDown := (floorCalledDown b1)(fromFloor := 1)\<rparr>
      in emit (LockRelease BuildingLock)
           (emit CondBroadcast (emit (LockAcquire BuildingLock) (w\<lparr>building := b2\<rparr>))))"

text \<open>A sequence of rider calls on one elevator; it stops at the first failed assertion.\<close>

datatype call = CEnter | CExit | CRequestFloor int | CCallUp int | CCallDown int

fun do_call :: "call \<Rightarrow> world \<Rightarrow> error + world" where
  "do_call CEnter w = (case Enter w of Inl e \<Rightarrow> Inl e | Inr (ok, w') \<Rightarrow> Inr w')"
| "do_call CExit w = Inr (Exit w)"
| "do_call (CRequestFloor f) w = Inr (RequestFloor f w)"
| "do_call (CCallUp f) w = Inr (CallUp f w)"
| "do_call (CCallDown f) w = Inr (CallDown f w)"

fun run :: "call list \<Rightarrow> world \<Rightarrow> error + world" where
  "run [] w = Inr w"
| "run (c # cs) w = (case do_call c w of Inl e \<Rightarrow> Inl e | Inr w' \<Rightarrow> run cs w')"

text \<open>
  \<open>exits_matched cs w\<close>: along \<open>cs\<close> from \<open>w\<close>, every \<^verbatim>\<open>Exit\<close> is called by a rider
  who is inside (the occupancy is positive at the call).
\<close>

fun exits_matched :: "call list \<Rightarrow> world \<Rightarrow> bool" where
  "exits_matched [] w = True"
| "exits_matched (c # cs) w =
     ((if c = CExit then 0 < occupancy (elev w) else True) \<and>
      (case do_call c w of Inl e \<Rightarrow> True | Inr w' \<Rightarrow> exits_matched cs w'))"

subsection \<open>The elevator's own thread\<close>

text \<open>
  The thread scheduler, the alarm and the event barrier are not among the sources.
  Scheduling is cooperative (spec section 5): the elevator's thread runs until it
  suspends itself in a call that may block (\<^verbatim>\<open>Pause\<close>, \<^verbatim>\<open>Yield\<close>, a barrier's
  \<^verbatim>\<open>Signal\<close>, a lock's \<^verbatim>\<open>Acquire\<close>), and while it is suspended any other thread may
  run. What the others do then is the environment \<open>env\<close>: an arbitrary function of the
  number of suspensions so far and of the world.
\<close>

type_synonym env = "nat \<Rightarrow> world \<Rightarrow> world"

text \<open>
  Modelled from the spec: a suspension point of the elevator's thread (spec section 5).
  From the environment's answer \<open>suspend\<close> takes the parts that other threads write:
  the building's flags, counter and registry cells, the occupancy and the inside buttons
  of the elevator (\<^verbatim>\<open>Enter\<close>, \<^verbatim>\<open>Exit\<close>, \<^verbatim>\<open>RequestFloor\<close> are run by riders) and the
  barriers' waiter counts. \<^verbatim>\<open>currentfloor\<close> and \<^verbatim>\<open>dir\<close> are assigned only in
  \<^verbatim>\<open>VisitFloor\<close> and \<^verbatim>\<open>Operating\<close>, which the elevator's own thread runs, \<^verbatim>\<open>floorCounts\<close>
  and \<^verbatim>\<open>elevatorID\<close> only in the constructor, and the registries are allocated only
  there: these stay as they are.
\<close>

definition suspend :: "env \<Rightarrow> world \<Rightarrow> world" where
  "suspend env w =
     (let w' = env (ticks w) w
      in w\<lparr>elev := (elev w)\<lparr>occupancy := occupancy (elev w'),
                              floorCalled := floorCalled (elev w')\<rparr>,
           building := (building w')\<lparr>registrySize := registrySize (building w)\<rparr>,
           waiters := waiters w',
           ticks := Suc (ticks w)\<rparr>)"

text \<open>Modelled from the spec: a call that may block (\<^verbatim>\<open>Alarm::Pause\<close>,
  \<^verbatim>\<open>Thread::Yield\<close>, \<^verbatim>\<open>EventBarrier::Signal\<close>, \<^verbatim>\<open>Lock::Acquire\<close>) is recorded in the
  trace and is a suspension point.\<close>

definition blocking :: "env \<Rightarrow> occurrence \<Rightarrow> world \<Rightarrow> world" where
  "blocking env a w = suspend env (emit a w)"

text \<open>The methods of \<^verbatim>\<open>Elevator\<close> that its control thread runs, and the two
  registry writers of \<^verbatim>\<open>Building\<close>.\<close>

definition VisitFloor :: "env \<Rightarrow> int \<Rightarrow> world \<Rightarrow> world" where
  "VisitFloor env floor w =
     (let ident = elevatorID (elev w);
          w1 = (if floor > currentfloor (elev w) then
                  blocking env (AlarmPause (10 * (floor - currentfloor (elev w))))
                    (emit (Debug (MsgOperating ident (10 * (floor - currentfloor (elev w))))) w)
                else
                  blocking env (AlarmPause (10 * (currentfloor (elev w) - floor)))
                    (emit (Debug (MsgOperating ident (10 * (currentfloor (elev w) - floor)))) w));
          w2 = w1\<lparr>elev := (elev w1)\<lparr>currentfloor := floor\<rparr>\<rparr>;
          w3 = w2\<lparr>elev := (elev w2)\<lparr>floorCalled := (floorCalled (elev w2))(floor := 0)\<rparr>\<rparr>
      in emit (Debug (MsgArrived ident (currentfloor (elev w3)))) w3)"

text \<open>
  \<^verbatim>\<open>upIDLock->Acquire(); elevatorUpID[floor] = elevatorID; upIDLock->Release();\<close>
  The registry has \<open>registrySize\<close> cells, so the assignment is defined for
  \<open>0 \<le> floor < registrySize\<close> only; elsewhere the result is \<open>Inl IndexOutOfBounds\<close>.
\<close>

definition GetUpID :: "env \<Rightarrow> int \<Rightarrow> int \<Rightarrow> world \<Rightarrow> error + world" where
  "GetUpID env floor ident w =
     (let w1 = blocking env (LockAcquire UpIDLock) w
      in if \<not> (0 \<le> floor \<and> floor < registrySize (building w1)) then Inl IndexOutOfBounds
         else
           (let w2 = w1\<lparr>building := (building w1)
                        \<lparr>elevatorUpID := (elevatorUpID (building w1))(floor := ident)\<rparr>\<rparr>
            in Inr (emit (LockRelease UpIDLock) w2)))"

definition GetDownID :: "env \<Rightarrow> int \<Rightarrow> int \<Rightarrow> world \<Rightarrow> error + world" where
  "GetDownID env floor ident w =
     (let w1 = blocking env (LockAcquire DownIDLock) w
      in if \<not> (0 \<le> floor \<and> floor < registrySize (building w1)) then Inl IndexOutOfBounds
         else
           (let w2 = w1\<lparr>building := (building w1)
                        \<lparr>elevatorDownID := (elevatorDownID (building w1))(floor := ident)\<rparr>\<rparr>
            in Inr (emit (LockRelease DownIDLock) w2)))"

definition getelevID :: "env \<Rightarrow> world \<Rightarrow> error + world" where
  "getelevID env w =
     (if dir (elev w) = 1 then GetUpID env (currentfloor (elev w)) (elevatorID (elev w)) w
      else GetDownID env (currentfloor (elev w)) (elevatorID (elev w)) w)"

definition OpenDoors :: "env \<Rightarrow> world \<Rightarrow> error + world" where
  "OpenDoors env w =
     (let w0 = emit (Debug (MsgOpenDoors (elevatorID (elev w)) (currentfloor (elev w)))) w;
          w1 = (if waiters w0 (ExitBar (currentfloor (elev w0))) > 0
                then blocking env (BarSignal (ExitBar (currentfloor (elev w0)))) w0 else w0)
      in case getelevID env w1 of
           Inl e \<Rightarrow> Inl e
         | Inr w2 \<Rightarrow>
             (let w3 = (if waiters w2 (EnterBarUp (currentfloor (elev w2))) > 0 \<and> dir (elev w2) = 1
                        then blocking env (BarSignal (EnterBarUp (currentfloor (elev w2)))) w2
                        else w2)
              in Inr (if waiters w3 (EnterBarDown (currentfloor (elev w3))) > 0 \<and> dir (elev w3) = 0
                      then blocking env (BarSignal (EnterBarDown (currentfloor (elev w3)))) w3
                      else w3)))"

definition CloseDoors :: "env \<Rightarrow> world \<Rightarrow> world" where
  "CloseDoors env w =
     (let w1 = blocking env ThreadYield w
      in emit (Debug (MsgCloseDoors (elevatorID (elev w1)) (currentfloor (elev w1)))) w1)"

text \<open>\<^verbatim>\<open>noneedUp(here)\<close>: the loop from \<open>here + 1\<close> up to \<^verbatim>\<open>floorCounts\<close>; the flag starts
  at 1 and the first floor with an up-call or an inside button sets it to 0.\<close>

function noneedUp_from :: "world \<Rightarrow> int \<Rightarrow> int" where
  "noneedUp_from w i =
     (if i \<le> floorCounts (elev w) then
        (if floorCalledUp (building w) i = 1 \<or> floorCalled (elev w) i = 1 then 0
         else noneedUp_from w (i + 1))
      else 1)"
  by pat_completeness auto
termination
  by (relation "measure (\<lambda>(w, i). nat (floorCounts (elev w) + 1 - i))") auto

declare noneedUp_from.simps [simp del]

definition noneedUp :: "world \<Rightarrow> int \<Rightarrow> int" where
  "noneedUp w here = noneedUp_from w (here + 1)"

text \<open>None of these writes \<^verbatim>\<open>floorCounts\<close>, which bounds the loops of \<^verbatim>\<open>Operating\<close>.\<close>

lemma floorCounts_emit [simp]: "floorCounts (elev (emit a w)) = floorCounts (elev w)"
  by (simp add: emit_def)

lemma floorCounts_blocking [simp]: "floorCounts (elev (blocking env a w)) = floorCounts (elev w)"
  by (simp add: blocking_def suspend_def Let_def emit_def)

lemma floorCounts_VisitFloor [simp]: "floorCounts (elev (VisitFloor env f w)) = floorCounts (elev w)"
  by (simp add: VisitFloor_def Let_def)

lemma floorCounts_getelevID:
  "getelevID env w = Inr w' \<Longrightarrow> floorCounts (elev w') = floorCounts (elev w)"
  by (auto simp: getelevID_def GetUpID_def GetDownID_def Let_def split: if_splits)

lemma floorCounts_OpenDoors:
  "OpenDoors env w = Inr w' \<Longrightarrow> floorCounts (elev w') = floorCounts (elev w)"
  by (auto simp: OpenDoors_def Let_def split: sum.splits if_splits dest!: floorCounts_getelevID)

lemma floorCounts_CloseDoors [simp]: "floorCounts (elev (CloseDoors env w)) = floorCounts (elev w)"
  by (simp add: CloseDoors_def Let_def)

text \<open>
  \<^verbatim>\<open>Elevator::Operating\<close>, the branch \<^verbatim>\<open>dir==1\<close>. \<open>scan_up env i w\<close> is the first
  \<^verbatim>\<open>for\<close> loop from index \<open>i\<close>; a \<^verbatim>\<open>break\<close> returns the world. \<open>check_down env i w\<close> is
  the second loop, from the top floor downwards. A registry write out of bounds inside
  \<^verbatim>\<open>OpenDoors\<close> ends the run with its error.
\<close>

function scan_up :: "env \<Rightarrow> int \<Rightarrow> world \<Rightarrow> error + world" where
  "scan_up env i w =
     (if i \<le> floorCounts (elev w) then
        (if floorCalledUp (building w) i = 1 \<or> floorCalled (elev w) i = 1 then
           (case OpenDoors env (VisitFloor env i w) of
              Inl e \<Rightarrow> Inl e
            | Inr w1 \<Rightarrow>
                if noneedUp w1 i \<noteq> 0 then
                  (if floorCalledDown (building w1) i = 1 then
                     (let w2 = w1\<lparr>elev := (elev w1)\<lparr>dir := 0\<rparr>\<rparr>;
                          w3 = w2\<lparr>building := (building w2)
                                 \<lparr>floorCalledDown :=
                                    (floorCalledDown (building w2))(currentfloor (elev w2) := 0)\<rparr>\<rparr>;
                          w4 = (if waiters w3 (EnterBarDown (currentfloor (elev w3))) > 0
                                then blocking env (BarSignal (EnterBarDown (currentfloor (elev w3)))) w3
                                else w3)
                      in Inr (CloseDoors env w4))
                   else Inr (CloseDoors env w1))
                else scan_up env (i + 1) (CloseDoors env w1))
         else scan_up env (i + 1) w)
      else Inr w)"
  by pat_completeness auto
termination
  by (relation "measure (\<lambda>(env, i, w). nat (floorCounts (elev w) + 1 - i))")
    (auto dest: floorCounts_OpenDoors)

declare scan_up.simps [simp del]

function check_down :: "env \<Rightarrow> int \<Rightarrow> world \<Rightarrow> error + world" where
  "check_down env i w =
     (if i \<ge> 1 then
        (if floorCalledDown (building w) i = 1 then
           (let w1 = VisitFloor env i w;
                w2 = w1\<lparr>elev := (elev w1)\<lparr>dir := 0\<rparr>\<rparr>
            in case OpenDoors env w2 of
                 Inl e \<Rightarrow> Inl e
               | Inr w3 \<Rightarrow> Inr (CloseDoors env w3))
         else check_down env (i - 1) w)
      else Inr w)"
  by pat_completeness auto
termination
  by (relation "measure (\<lambda>(env, i, w). nat i)") auto

declare check_down.simps [simp del]

definition Operating_up :: "env \<Rightarrow> world \<Rightarrow> error + world" where
  "Operating_up env w =
     (case scan_up env (currentfloor (elev w) + 1) w of
        Inl e \<Rightarrow> Inl e
      | Inr w1 \<Rightarrow>
          (case check_down env (floorCounts (elev w1)) w1 of
             Inl e \<Rightarrow> Inl e
           | Inr w2 \<Rightarrow> Inr (w2\<lparr>elev := (elev w2)\<lparr>dir := 0\<rparr>\<rparr>)))"

text \<open>The branch \<^verbatim>\<open>dir==0\<close>, the mirror image.\<close>

function noneedDown_from :: "world \<Rightarrow> int \<Rightarrow> int" where
  "noneedDown_from w i =
     (if i \<ge> 1 then
        (if floorCalledDown (building w) i = 1 \<or> floorCalled (elev w) i = 1 then 0
         else noneedDown_from w (i - 1))
      else 1)"
  by pat_completeness auto
termination
  by (relation "measure (\<lambda>(w, i). nat i)") auto

declare noneedDown_from.simps [simp del]

definition noneedDown :: "world \<Rightarrow> int \<Rightarrow> int" where
  "noneedDown w here = noneedDown_from w (here - 1)"

function scan_down :: "env \<Rightarrow> int \<Rightarrow> world \<Rightarrow> error + world" where
  "scan_down env i w =
     (if i \<ge> 1 then
        (if floorCalledDown (building w) i = 1 \<or> floorCalled (elev w) i = 1 then
           (case OpenDoors env (VisitFloor env i w) of
              Inl e \<Rightarrow> Inl e
            | Inr w1 \<Rightarrow>
                if noneedDown w1 i \<noteq> 0 then
                  (if floorCalledUp (building w1) i = 1 then
                     (let w2 = w1\<lparr>elev := (elev w1)\<lparr>dir := 1\<rparr>\<rparr>;
                          w3 = w2\<lparr>building := (building w2)
                                 \<lparr>floorCalledUp :=
                                    (floorCalledUp (building w2))(currentfloor (elev w2) := 0)\<rparr>\<rparr>;
                          w4 = (if waiters w3 (EnterBarUp (currentfloor (elev w3))) > 0
                                then blocking env (BarSignal (EnterBarUp (currentfloor (elev w3)))) w3
                                else w3)
                      in Inr (CloseDoors env w4))
                   else Inr (CloseDoors env w1))
                else scan_down env (i - 1) (CloseDoors env w1))
         else scan_down env (i - 1) w)
      else Inr w)"
  by pat_completeness auto
termination
  by (relation "measure (\<lambda>(env, i, w). nat i)") auto

declare scan_down.simps [simp del]

function check_up :: "env \<Rightarrow> int \<Rightarrow> world \<Rightarrow> error + world" where
  "check_up env i w =
     (if i \<le> floorCounts (elev w) then
        (if floorCalledUp (building w) i = 1 then
           (let w1 = VisitFloor env i w;
                w2 = w1\<lparr>elev := (elev w1)\<lparr>dir := 1\<rparr>\<rparr>
            in case OpenDoors env w2 of
                 Inl e \<Rightarrow> Inl e
               | Inr w3 \<Rightarrow> Inr (CloseDoors env w3))
         else check_up env (i + 1) w)
      else Inr w)"
  by pat_completeness auto
termination
  by (relation "measure (\<lambda>(env, i, w). nat (floorCounts (elev w) + 1 - i))") auto

declare check_up.simps [simp del]

definition Operating_down :: "env \<Rightarrow> world \<Rightarrow> error + world" where
  "Operating_down env w =
     (case scan_down env (currentfloor (elev w) - 1) w of
        Inl e \<Rightarrow> Inl e
      | Inr w1 \<Rightarrow>
          (case check_up env 1 w1 of
             Inl e \<Rightarrow> Inl e
           | Inr w2 \<Rightarrow> Inr (w2\<lparr>elev := (elev w2)\<lparr>dir := 1\<rparr>\<rparr>)))"

text \<open>
  One pass of the body of \<^verbatim>\<open>while (true)\<close>, up to the point where the thread takes the
  building's lock to sleep while there is neither a request nor a rider; that wait writes
  neither \<^verbatim>\<open>currentfloor\<close> nor \<^verbatim>\<open>dir\<close> and is not part of the model.
\<close>

definition Operating_pass :: "env \<Rightarrow> world \<Rightarrow> error + world" where
  "Operating_pass env w =
     (if dir (elev w) = 1 then Operating_up env w
      else if dir (elev w) = 0 then Operating_down env w
      else Inr w)"

text \<open>
  A concrete environment (at every suspension another rider calls up at floor 2) and two
  concrete worlds, both with the car at floor 1 going up and one down-call at floor 4: in
  a building of five floors and in a building of four floors, where floor 4 is the top
  floor.
\<close>

definition late_caller :: env where
  "late_caller n w = CallUp 2 w"

definition down_call_at_4 :: world where
  "down_call_at_4 =
     CallDown 4 ((world_new 5 2 zero_mem)\<lparr>elev := (Elevator_new 5 0 zero_mem)\<lparr>dir := 1\<rparr>\<rparr>)"


text \<open>Two concrete worlds for the lemmas below: a car of capacity 2 carrying two riders,
  with one request outstanding; the same car travelling up.\<close>

definition full_car :: world where
  "full_car =
     (world_new 5 2 zero_mem)
       \<lparr>elev := (Elevator_new 5 0 zero_mem)\<lparr>occupancy := 2\<rparr>,
        building := (Building_new 5 zero_mem)\<lparr>riderRequest := 1\<rparr>\<rparr>"

definition full_car_up :: world where
  "full_car_up = full_car\<lparr>elev := (elev full_car)\<lparr>dir := 1\<rparr>\<rparr>"

definition free_car_up :: world where
  "free_car_up = full_car_up\<lparr>elev := (elev full_car_up)\<lparr>occupancy := 1\<rparr>\<rparr>"

definition occ_ok :: "world \<Rightarrow> bool" where
  "occ_ok w = (0 \<le> occupancy (elev w) \<and> occupancy (elev w) \<le> capacity w)"

section \<open>Properties of Semaphore, Lock and Condition\<close>

subsection \<open>The lock on a wait queue keeps its invariant\<close>

lemma lock_ok_new: "lock_ok system_new l"
  by (simp add: lock_ok_def system_new_def Lock_new_def)

lemma lock_ok_cong:
  "locks s' = locks s \<Longrightarrow> acquired s' = acquired s \<Longrightarrow> lock_ok s' l = lock_ok s l"
  by (simp add: lock_ok_def)

lemma Acquire_loop_ok: "lock_ok s k \<Longrightarrow> lock_ok (Acquire_loop t l fw s) k"
  by (auto simp: lock_ok_def Acquire_loop_def Let_def)

lemma Lock_Acquire_ok: "lock_ok s k \<Longrightarrow> Lock_Acquire t l fw s = Inr s' \<Longrightarrow> lock_ok s' k"
  by (auto simp: Lock_Acquire_def Acquire_loop_ok split: if_splits)

lemma Lock_Release_ok: "lock_ok s k \<Longrightarrow> Lock_Release t l s = Inr s' \<Longrightarrow> lock_ok s' k"
  by (auto simp: lock_ok_def Lock_Release_def isHeldByCurrentThread_def Let_def
      split: if_splits prod.splits option.splits)

lemma Condition_check_frame:
  "Condition_check t c l s = Inr s' \<Longrightarrow>
   locks s' = locks s \<and> acquired s' = acquired s \<and> asleep s' = asleep s \<and>
   place_of s' = place_of s \<and> heldByThread (locks s l) = Some t \<and>
   firstLock (conditions s' c) = Some l"
  by (auto simp: Condition_check_def Let_def isHeldByCurrentThread_def split: if_splits)

lemma Condition_Wait_Inr:
  "Condition_Wait t c l s = Inr s' \<Longrightarrow>
   \<exists>s1 s3. Condition_check t c l s = Inr s1 \<and>
     Lock_Release t l (s1\<lparr>conditions := (conditions s1)
        (c := (conditions s1 c)\<lparr>cond_queue := Append t (cond_queue (conditions s1 c))\<rparr>)\<rparr>) = Inr s3 \<and>
     s' = s3\<lparr>asleep := Sleep t (asleep s3), place_of := (place_of s3)(t := InWait c l)\<rparr>"
  by (simp add: Condition_Wait_def Let_def split: sum.splits)

lemma Condition_Wait_ok: "lock_ok s k \<Longrightarrow> Condition_Wait t c l s = Inr s' \<Longrightarrow> lock_ok s' k"
proof -
  assume ok: "lock_ok s k" and w: "Condition_Wait t c l s = Inr s'"
  from Condition_Wait_Inr[OF w] obtain s1 s3 where c: "Condition_check t c l s = Inr s1"
    and r: "Lock_Release t l (s1\<lparr>conditions := (conditions s1)
        (c := (conditions s1 c)\<lparr>cond_queue := Append t (cond_queue (conditions s1 c))\<rparr>)\<rparr>) = Inr s3"
    and e: "s' = s3\<lparr>asleep := Sleep t (asleep s3), place_of := (place_of s3)(t := InWait c l)\<rparr>"
    by blast
  have "lock_ok s1 k" using ok Condition_check_frame[OF c] by (simp add: lock_ok_def)
  then have "lock_ok (s1\<lparr>conditions := (conditions s1)
        (c := (conditions s1 c)\<lparr>cond_queue := Append t (cond_queue (conditions s1 c))\<rparr>)\<rparr>) k"
    by (simp add: lock_ok_def)
  then have "lock_ok s3 k" using r by (rule Lock_Release_ok)
  then show ?thesis by (simp add: e lock_ok_def)
qed

lemma Condition_Signal_ok: "lock_ok s k \<Longrightarrow> Condition_Signal t c l s = Inr s' \<Longrightarrow> lock_ok s' k"
proof -
  assume ok: "lock_ok s k" and w: "Condition_Signal t c l s = Inr s'"
  from w obtain s1 where c: "Condition_check t c l s = Inr s1"
    by (auto simp: Condition_Signal_def split: sum.splits)
  have 1: "lock_ok s1 k" using ok Condition_check_frame[OF c] by (simp add: lock_ok_def)
  from w c have "locks s' = locks s1 \<and> acquired s' = acquired s1"
    by (auto simp: Condition_Signal_def Let_def split: prod.splits option.splits)
  with 1 show ?thesis by (simp add: lock_ok_def)
qed

lemma Condition_Broadcast_ok:
  "lock_ok s k \<Longrightarrow> Condition_Broadcast t c l s = Inr s' \<Longrightarrow> lock_ok s' k"
proof -
  assume ok: "lock_ok s k" and w: "Condition_Broadcast t c l s = Inr s'"
  from w obtain s1 where c: "Condition_check t c l s = Inr s1"
    by (auto simp: Condition_Broadcast_def split: sum.splits)
  have 1: "lock_ok s1 k" using ok Condition_check_frame[OF c] by (simp add: lock_ok_def)
  from w c have "locks s' = locks s1 \<and> acquired s' = acquired s1"
    by (auto simp: Condition_Broadcast_def Let_def split: prod.splits)
  with 1 show ?thesis by (simp add: lock_ok_def)
qed

lemma step_ok: "lock_ok s k \<Longrightarrow> step s ev = Inr s' \<Longrightarrow> lock_ok s' k"
proof (cases ev)
  case (Call t r)
  assume ok: "lock_ok s k" and st: "step s ev = Inr s'"
  show ?thesis
  proof (cases r)
    case (Acquire l)
    with Call st ok show ?thesis by (auto split: if_splits dest: Lock_Acquire_ok)
  next
    case (Release l)
    with Call st ok show ?thesis by (auto split: if_splits dest: Lock_Release_ok)
  next
    case (Wait c l)
    with Call st ok show ?thesis by (auto split: if_splits dest: Condition_Wait_ok)
  next
    case (Signal c l)
    with Call st ok show ?thesis by (auto split: if_splits dest: Condition_Signal_ok)
  next
    case (Broadcast c l)
    with Call st ok show ?thesis by (auto split: if_splits dest: Condition_Broadcast_ok)
  qed
next
  case (Resume t)
  assume ok: "lock_ok s k" and st: "step s ev = Inr s'"
  with Resume show ?thesis
    by (auto split: if_splits place.splits dest: Lock_Acquire_ok simp: Acquire_loop_ok)
qed

lemma exec_ok: "lock_ok s k \<Longrightarrow> exec evs s = Inr s' \<Longrightarrow> lock_ok s' k"
proof (induction evs arbitrary: s)
  case Nil
  then show ?case by simp
next
  case (Cons e es)
  then show ?case by (auto split: sum.splits dest: step_ok)
qed

lemma lock_ok_exclusive: "lock_ok s l \<Longrightarrow> exclusive (acquired s) l"
  by (auto simp: lock_ok_def exclusive_def)

subsection \<open>Who can become the holder (wait-queue lock)\<close>

lemma Acquire_loop_acquired:
  "acquired (Acquire_loop t k fw s) l u =
     (acquired s l u \<or> (l = k \<and> u = t \<and> mutex (locks s k) \<noteq> 0))"
  by (simp add: Acquire_loop_def Let_def)

lemma Acquire_loop_holder:
  "mutex (locks s k) \<noteq> 0 \<Longrightarrow>
   place_of (Acquire_loop t k fw s) t = Idle \<and>
   heldByThread (locks (Acquire_loop t k fw s) k) = Some t"
  by (simp add: Acquire_loop_def Let_def)

lemma Lock_Release_acquired:
  "Lock_Release t k s = Inr s' \<Longrightarrow> acquired s' l u \<Longrightarrow> acquired s l u"
  by (auto simp: Lock_Release_def Let_def split: if_splits prod.splits option.splits)

lemma Lock_Release_vacant:
  "lock_ok s l \<Longrightarrow> Lock_Release t l s = Inr s' \<Longrightarrow>
   vacant (acquired s') l \<and> heldByThread (locks s' l) = None \<and> mutex (locks s' l) = 1"
  by (auto simp: lock_ok_def vacant_def Lock_Release_def isHeldByCurrentThread_def Let_def
      split: if_splits prod.splits option.splits)

lemma Condition_Wait_acquired:
  "Condition_Wait t c k s = Inr s' \<Longrightarrow> acquired s' l u \<Longrightarrow> acquired s l u"
proof -
  assume w: "Condition_Wait t c k s = Inr s'" and a: "acquired s' l u"
  from Condition_Wait_Inr[OF w] obtain s1 s3 where c: "Condition_check t c k s = Inr s1"
    and r: "Lock_Release t k (s1\<lparr>conditions := (conditions s1)
        (c := (conditions s1 c)\<lparr>cond_queue := Append t (cond_queue (conditions s1 c))\<rparr>)\<rparr>) = Inr s3"
    and e: "s' = s3\<lparr>asleep := Sleep t (asleep s3), place_of := (place_of s3)(t := InWait c k)\<rparr>"
    by blast
  from a e have "acquired s3 l u" by simp
  from Lock_Release_acquired[OF r this] have "acquired s1 l u" by simp
  with Condition_check_frame[OF c] show ?thesis by simp
qed

lemma Condition_Signal_acquired:
  "Condition_Signal t c k s = Inr s' \<Longrightarrow> acquired s' = acquired s"
proof -
  assume w: "Condition_Signal t c k s = Inr s'"
  from w obtain s1 where c: "Condition_check t c k s = Inr s1"
    by (auto simp: Condition_Signal_def split: sum.splits)
  from w c have "acquired s' = acquired s1"
    by (auto simp: Condition_Signal_def Let_def split: prod.splits option.splits)
  with Condition_check_frame[OF c] show ?thesis by simp
qed

lemma Condition_Broadcast_acquired:
  "Condition_Broadcast t c k s = Inr s' \<Longrightarrow> acquired s' = acquired s"
proof -
  assume w: "Condition_Broadcast t c k s = Inr s'"
  from w obtain s1 where c: "Condition_check t c k s = Inr s1"
    by (auto simp: Condition_Broadcast_def split: sum.splits)
  from w c have "acquired s' = acquired s1"
    by (auto simp: Condition_Broadcast_def Let_def split: prod.splits)
  with Condition_check_frame[OF c] show ?thesis by simp
qed

lemma lock_ok_vacant: "lock_ok s l \<Longrightarrow> mutex (locks s l) \<noteq> 0 \<Longrightarrow> vacant (acquired s) l"
  by (auto simp: lock_ok_def vacant_def)

lemma step_enters:
  assumes ok: "lock_ok s l" and st: "step s ev = Inr s'"
    and before: "\<not> acquired s l u" and after: "acquired s' l u"
  shows "(ev = Call u (Acquire l) \<or>
          ev = Resume u \<and> ((\<exists>fw. place_of s u = InAcquire l fw) \<or> (\<exists>c. place_of s u = InWait c l))) \<and>
         vacant (acquired s) l \<and> place_of s' u = Idle \<and> heldByThread (locks s' l) = Some u"
proof (cases ev)
  case (Call t r)
  show ?thesis
  proof (cases r)
    case (Acquire k)
    with Call st have e: "s' = Acquire_loop t k False s"
      by (auto simp: Lock_Acquire_def split: if_splits)
    with before after have "l = k \<and> u = t \<and> mutex (locks s k) \<noteq> 0"
      by (simp add: Acquire_loop_acquired)
    with e Call Acquire ok show ?thesis
      using Acquire_loop_holder[of s k t False] by (simp add: lock_ok_vacant)
  next
    case (Release k)
    with Call st have "Lock_Release t k s = Inr s'" by (auto split: if_splits)
    from Lock_Release_acquired[OF this after] before show ?thesis by simp
  next
    case (Wait c k)
    with Call st have "Condition_Wait t c k s = Inr s'" by (auto split: if_splits)
    from Condition_Wait_acquired[OF this after] before show ?thesis by simp
  next
    case (Signal c k)
    with Call st have "Condition_Signal t c k s = Inr s'" by (auto split: if_splits)
    from Condition_Signal_acquired[OF this] after before show ?thesis by simp
  next
    case (Broadcast c k)
    with Call st have "Condition_Broadcast t c k s = Inr s'" by (auto split: if_splits)
    from Condition_Broadcast_acquired[OF this] after before show ?thesis by simp
  qed
next
  case (Resume t)
  show ?thesis
  proof (cases "place_of s t")
    case Idle
    with Resume st show ?thesis by (simp split: if_splits)
  next
    case (InP k)
    with Resume st show ?thesis by (simp split: if_splits)
  next
    case (InAcquire k fw)
    with Resume st have e: "s' = Acquire_loop t k fw s" by (auto split: if_splits)
    with before after have "l = k \<and> u = t \<and> mutex (locks s k) \<noteq> 0"
      by (simp add: Acquire_loop_acquired)
    with e Resume InAcquire ok show ?thesis
      using Acquire_loop_holder[of s k t fw] by (simp add: lock_ok_vacant)
  next
    case (InWait c k)
    with Resume st have e: "s' = Acquire_loop t k True s"
      by (auto simp: Lock_Acquire_def split: if_splits)
    with before after have "l = k \<and> u = t \<and> mutex (locks s k) \<noteq> 0"
      by (simp add: Acquire_loop_acquired)
    with e Resume InWait ok show ?thesis
      using Acquire_loop_holder[of s k t True] by (simp add: lock_ok_vacant)
  qed
qed

lemma step_release_vacant:
  "lock_ok s l \<Longrightarrow> step s (Call t (Release l)) = Inr s' \<Longrightarrow> vacant (acquired s') l"
  by (auto split: if_splits dest: Lock_Release_vacant)

subsection \<open>The lock on a semaphore keeps its invariant\<close>

lemma sem_lock_ok_new: "sem_lock_ok (sem_system_new iv) l"
  by (simp add: sem_lock_ok_def sem_system_new_def SemLock_new_def Semaphore_new_def)

lemma Semaphore_P_value:
  "Semaphore_P t (sem, sl) = (b, sem', sl') \<Longrightarrow>
   (b \<longleftrightarrow> sem_value sem = 0) \<and>
   sem_value sem' = (if b then sem_value sem else sem_value sem - 1)"
  by (auto simp: Semaphore_P_def split: if_splits)

lemma Semaphore_V_value:
  "Semaphore_V (sem, sl) = (sem', sl') \<Longrightarrow> sem_value sem' = sem_value sem + 1"
  by (auto simp: Semaphore_V_def V_steps_def Let_def split: prod.splits option.splits)

lemma SemLock_Acquire_P_ok: "sem_lock_ok s k \<Longrightarrow> sem_lock_ok (SemLock_Acquire_P t l fw s) k"
proof -
  assume ok: "sem_lock_ok s k"
  obtain b sem sl where p: "Semaphore_P t (semLock (sem_locks s l), asleep s) = (b, sem, sl)"
    by (cases "Semaphore_P t (semLock (sem_locks s l), asleep s)") auto
  from Semaphore_P_value[OF p] ok p show ?thesis
    by (auto simp: sem_lock_ok_def SemLock_Acquire_P_def Let_def)
qed

lemma SemLock_Acquire_ok:
  "sem_lock_ok s k \<Longrightarrow> SemLock_Acquire t l fw s = Inr s' \<Longrightarrow> sem_lock_ok s' k"
  by (auto simp: SemLock_Acquire_def SemLock_Acquire_P_ok split: if_splits)

lemma SemLock_Release_ok:
  "sem_lock_ok s k \<Longrightarrow> SemLock_Release t l s = Inr s' \<Longrightarrow> sem_lock_ok s' k"
proof -
  assume ok: "sem_lock_ok s k" and r: "SemLock_Release t l s = Inr s'"
  define L1 where "L1 = (sem_locks s l)\<lparr>sem_heldByThread := None\<rparr>"
  obtain sem sl where v: "Semaphore_V (semLock L1, asleep s) = (sem, sl)"
    by (cases "Semaphore_V (semLock L1, asleep s)") auto
  from Semaphore_V_value[OF v] have sv: "sem_value sem = sem_value (semLock (sem_locks s l)) + 1"
    by (simp add: L1_def)
  from r have h: "sem_heldByThread (sem_locks s l) = Some t"
    by (auto simp: SemLock_Release_def split: if_splits)
  show ?thesis
  proof (cases "k = l")
    case True
    with ok h have z: "sem_value (semLock (sem_locks s l)) = 0" by (auto simp: sem_lock_ok_def)
    with r h v sv ok True show ?thesis
      by (auto simp: sem_lock_ok_def SemLock_Release_def Let_def L1_def split: if_splits)
  next
    case False
    with r h v ok show ?thesis
      by (auto simp: sem_lock_ok_def SemLock_Release_def Let_def L1_def split: if_splits)
  qed
qed

lemma SemCondition_Wait_P_ok:
  "sem_lock_ok s k \<Longrightarrow> SemCondition_Wait_P t c l s = Inr s' \<Longrightarrow> sem_lock_ok s' k"
proof -
  assume ok: "sem_lock_ok s k" and w: "SemCondition_Wait_P t c l s = Inr s'"
  obtain b sem sl where p: "Semaphore_P t (semCond (sem_conditions s c), asleep s) = (b, sem, sl)"
    by (cases "Semaphore_P t (semCond (sem_conditions s c), asleep s)") auto
  define s1 where "s1 = s\<lparr>sem_conditions := (sem_conditions s)(c := (sem_conditions s c)\<lparr>semCond := sem\<rparr>),
                       asleep := sl\<rparr>"
  have ok1: "sem_lock_ok s1 k" using ok by (auto simp: s1_def sem_lock_ok_def)
  show ?thesis
  proof (cases b)
    case True
    with w p have "s' = s1\<lparr>place_of := (place_of s1)(t := InWait c l)\<rparr>"
      by (simp add: SemCondition_Wait_P_def Let_def s1_def)
    with ok1 show ?thesis by (auto simp: sem_lock_ok_def)
  next
    case False
    with w p have "SemLock_Acquire t l True s1 = Inr s'"
      by (simp add: SemCondition_Wait_P_def Let_def s1_def)
    with ok1 show ?thesis by (rule SemLock_Acquire_ok)
  qed
qed

lemma SemCondition_Wait_ok:
  "sem_lock_ok s k \<Longrightarrow> SemCondition_Wait t c l s = Inr s' \<Longrightarrow> sem_lock_ok s' k"
proof -
  assume ok: "sem_lock_ok s k" and w: "SemCondition_Wait t c l s = Inr s'"
  from w obtain s1 where r: "SemLock_Release t l s = Inr s1"
    and p: "SemCondition_Wait_P t c l s1 = Inr s'"
    by (auto simp: SemCondition_Wait_def split: if_splits sum.splits)
  from SemLock_Release_ok[OF ok r] p show ?thesis by (rule SemCondition_Wait_P_ok)
qed

lemma SemCondition_Signal_frame:
  "SemCondition_Signal t c l s = Inr s' \<Longrightarrow>
   sem_locks s' = sem_locks s \<and> acquired s' = acquired s \<and> place_of s' = place_of s"
  by (auto simp: SemCondition_Signal_def Let_def split: if_splits prod.splits)

lemma SemCondition_Broadcast_frame:
  "SemCondition_Broadcast t c l s = Inr s' \<Longrightarrow>
   sem_locks s' = sem_locks s \<and> acquired s' = acquired s \<and> place_of s' = place_of s"
  by (auto simp: SemCondition_Broadcast_def Let_def split: if_splits prod.splits)

lemma P_call_frame:
  "sem_locks (P_call t k s) = sem_locks s \<and> acquired (P_call t k s) = acquired s"
  by (auto simp: P_call_def split: prod.splits)

lemma V_call_frame:
  "sem_locks (V_call k s) = sem_locks s \<and> acquired (V_call k s) = acquired s"
  by (auto simp: V_call_def split: prod.splits)

lemma sem_step_ok: "sem_lock_ok s k \<Longrightarrow> sem_step s ev = Inr s' \<Longrightarrow> sem_lock_ok s' k"
proof (cases ev)
  case (Call t r)
  assume ok: "sem_lock_ok s k" and st: "sem_step s ev = Inr s'"
  show ?thesis
  proof (cases r)
    case (SemP j)
    with Call st ok P_call_frame[of t j s] show ?thesis
      by (auto simp: sem_lock_ok_def split: if_splits)
  next
    case (SemV j)
    with Call st ok V_call_frame[of j s] show ?thesis
      by (auto simp: sem_lock_ok_def split: if_splits)
  next
    case (SemAcquire l)
    with Call st ok show ?thesis by (auto split: if_splits dest: SemLock_Acquire_ok)
  next
    case (SemRelease l)
    with Call st ok show ?thesis by (auto split: if_splits dest: SemLock_Release_ok)
  next
    case (SemWait c l)
    with Call st ok show ?thesis by (auto split: if_splits dest: SemCondition_Wait_ok)
  next
    case (SemSignal c l)
    with Call st have "SemCondition_Signal t c l s = Inr s'" by (auto split: if_splits)
    from SemCondition_Signal_frame[OF this] ok show ?thesis by (auto simp: sem_lock_ok_def)
  next
    case (SemBroadcast c l)
    with Call st have "SemCondition_Broadcast t c l s = Inr s'" by (auto split: if_splits)
    from SemCondition_Broadcast_frame[OF this] ok show ?thesis by (auto simp: sem_lock_ok_def)
  qed
next
  case (Resume t)
  assume ok: "sem_lock_ok s k" and st: "sem_step s ev = Inr s'"
  show ?thesis
  proof (cases "place_of s t")
    case Idle
    with Resume st show ?thesis by (simp split: if_splits)
  next
    case (InP j)
    with Resume st ok P_call_frame[of t j s] show ?thesis
      by (auto simp: sem_lock_ok_def split: if_splits)
  next
    case (InAcquire l fw)
    with Resume st ok show ?thesis by (auto split: if_splits simp: SemLock_Acquire_P_ok)
  next
    case (InWait c l)
    with Resume st ok show ?thesis by (auto split: if_splits dest: SemCondition_Wait_P_ok)
  qed
qed

lemma sem_exec_ok: "sem_lock_ok s k \<Longrightarrow> sem_exec evs s = Inr s' \<Longrightarrow> sem_lock_ok s' k"
proof (induction evs arbitrary: s)
  case Nil
  then show ?case by simp
next
  case (Cons e es)
  then show ?case by (auto split: sum.splits dest: sem_step_ok)
qed

lemma sem_lock_ok_exclusive: "sem_lock_ok s l \<Longrightarrow> exclusive (acquired s) l"
  by (auto simp: sem_lock_ok_def exclusive_def)

subsection \<open>Who can become the holder (semaphore lock)\<close>

lemma SemLock_Acquire_P_acquired:
  "acquired (SemLock_Acquire_P t k fw s) l u =
     (acquired s l u \<or> (l = k \<and> u = t \<and> sem_value (semLock (sem_locks s k)) \<noteq> 0))"
  by (simp add: SemLock_Acquire_P_def Semaphore_P_def Let_def)

lemma SemLock_Acquire_P_holder:
  "sem_value (semLock (sem_locks s k)) \<noteq> 0 \<Longrightarrow>
   place_of (SemLock_Acquire_P t k fw s) t = Idle \<and>
   sem_heldByThread (sem_locks (SemLock_Acquire_P t k fw s) k) = Some t"
  by (simp add: SemLock_Acquire_P_def Semaphore_P_def Let_def)

lemma SemLock_Release_acquired:
  "SemLock_Release t k s = Inr s' \<Longrightarrow> acquired s' l u \<Longrightarrow> acquired s l u"
  by (auto simp: SemLock_Release_def Let_def split: if_splits prod.splits)

lemma SemLock_Release_vacant:
  "sem_lock_ok s l \<Longrightarrow> SemLock_Release t l s = Inr s' \<Longrightarrow>
   vacant (acquired s') l \<and> sem_heldByThread (sem_locks s' l) = None"
  by (auto simp: sem_lock_ok_def vacant_def SemLock_Release_def Let_def
      split: if_splits prod.splits)

lemma sem_lock_ok_vacant:
  "sem_lock_ok s l \<Longrightarrow> sem_value (semLock (sem_locks s l)) \<noteq> 0 \<Longrightarrow> vacant (acquired s) l"
  by (auto simp: sem_lock_ok_def vacant_def)

lemma SemCondition_Wait_P_acquired:
  assumes w: "SemCondition_Wait_P t c k s = Inr s'" and a: "acquired s' l u"
  shows "acquired s l u \<or>
         (l = k \<and> u = t \<and> sem_value (semLock (sem_locks s k)) \<noteq> 0 \<and>
          place_of s' t = Idle \<and> sem_heldByThread (sem_locks s' k) = Some t)"
proof -
  obtain b sem sl where p: "Semaphore_P t (semCond (sem_conditions s c), asleep s) = (b, sem, sl)"
    by (cases "Semaphore_P t (semCond (sem_conditions s c), asleep s)") auto
  define s1 where "s1 = s\<lparr>sem_conditions := (sem_conditions s)(c := (sem_conditions s c)\<lparr>semCond := sem\<rparr>),
                       asleep := sl\<rparr>"
  have f: "acquired s1 = acquired s" "sem_locks s1 = sem_locks s" by (simp_all add: s1_def)
  show ?thesis
  proof (cases b)
    case True
    with w p have "s' = s1\<lparr>place_of := (place_of s1)(t := InWait c k)\<rparr>"
      by (simp add: SemCondition_Wait_P_def Let_def s1_def)
    with a f show ?thesis by simp
  next
    case False
    with w p have "SemLock_Acquire t k True s1 = Inr s'"
      by (simp add: SemCondition_Wait_P_def Let_def s1_def)
    then have e: "s' = SemLock_Acquire_P t k True s1"
      by (auto simp: SemLock_Acquire_def split: if_splits)
    with a have "acquired s1 l u \<or> (l = k \<and> u = t \<and> sem_value (semLock (sem_locks s1 k)) \<noteq> 0)"
      by (simp add: SemLock_Acquire_P_acquired)
    with e f SemLock_Acquire_P_holder[of s1 k t True] show ?thesis by auto
  qed
qed

lemma SemCondition_Wait_acquired:
  assumes ok: "sem_lock_ok s l" and w: "SemCondition_Wait t c k s = Inr s'"
    and a: "acquired s' l u"
  shows "acquired s l u"
proof -
  from w have h: "sem_heldByThread (sem_locks s k) = Some t"
    by (auto simp: SemCondition_Wait_def split: if_splits)
  from w obtain s1 where r: "SemLock_Release t k s = Inr s1"
    and p: "SemCondition_Wait_P t c k s1 = Inr s'"
    by (auto simp: SemCondition_Wait_def split: if_splits sum.splits)
  from SemCondition_Wait_P_acquired[OF p a]
  show ?thesis
  proof
    assume "acquired s1 l u"
    with r show ?thesis by (rule SemLock_Release_acquired)
  next
    assume "l = k \<and> u = t \<and> sem_value (semLock (sem_locks s1 k)) \<noteq> 0 \<and>
          place_of s' t = Idle \<and> sem_heldByThread (sem_locks s' k) = Some t"
    with ok h show ?thesis by (auto simp: sem_lock_ok_def)
  qed
qed

lemma sem_step_enters:
  assumes ok: "sem_lock_ok s l" and st: "sem_step s ev = Inr s'"
    and before: "\<not> acquired s l u" and after: "acquired s' l u"
  shows "(ev = Call u (SemAcquire l) \<or>
          ev = Resume u \<and> ((\<exists>fw. place_of s u = InAcquire l fw) \<or> (\<exists>c. place_of s u = InWait c l))) \<and>
         vacant (acquired s) l \<and> place_of s' u = Idle \<and>
         sem_heldByThread (sem_locks s' l) = Some u"
proof (cases ev)
  case (Call t r)
  show ?thesis
  proof (cases r)
    case (SemP j)
    with Call st P_call_frame[of t j s] before after show ?thesis by (auto split: if_splits)
  next
    case (SemV j)
    with Call st V_call_frame[of j s] before after show ?thesis by (auto split: if_splits)
  next
    case (SemAcquire k)
    with Call st have e: "s' = SemLock_Acquire_P t k False s"
      by (auto simp: SemLock_Acquire_def split: if_splits)
    with before after have "l = k \<and> u = t \<and> sem_value (semLock (sem_locks s k)) \<noteq> 0"
      by (simp add: SemLock_Acquire_P_acquired)
    with e Call SemAcquire ok show ?thesis
      using SemLock_Acquire_P_holder[of s k t False] by (simp add: sem_lock_ok_vacant)
  next
    case (SemRelease k)
    with Call st have "SemLock_Release t k s = Inr s'" by (auto split: if_splits)
    from SemLock_Release_acquired[OF this after] before show ?thesis by simp
  next
    case (SemWait c k)
    with Call st have "SemCondition_Wait t c k s = Inr s'" by (auto split: if_splits)
    from SemCondition_Wait_acquired[OF ok this after] before show ?thesis by simp
  next
    case (SemSignal c k)
    with Call st have "SemCondition_Signal t c k s = Inr s'" by (auto split: if_splits)
    from SemCondition_Signal_frame[OF this] after before show ?thesis by simp
  next
    case (SemBroadcast c k)
    with Call st have "SemCondition_Broadcast t c k s = Inr s'" by (auto split: if_splits)
    from SemCondition_Broadcast_frame[OF this] after before show ?thesis by simp
  qed
next
  case (Resume t)
  show ?thesis
  proof (cases "place_of s t")
    case Idle
    with Resume st show ?thesis by (simp split: if_splits)
  next
    case (InP j)
    with Resume st P_call_frame[of t j s] before after show ?thesis by (auto split: if_splits)
  next
    case (InAcquire k fw)
    with Resume st have e: "s' = SemLock_Acquire_P t k fw s" by (auto split: if_splits)
    with before after have "l = k \<and> u = t \<and> sem_value (semLock (sem_locks s k)) \<noteq> 0"
      by (simp add: SemLock_Acquire_P_acquired)
    with e Resume InAcquire ok show ?thesis
      using SemLock_Acquire_P_holder[of s k t fw] by (simp add: sem_lock_ok_vacant)
  next
    case (InWait c k)
    with Resume st have "SemCondition_Wait_P t c k s = Inr s'" by (auto split: if_splits)
    from SemCondition_Wait_P_acquired[OF this after] before
    have "l = k \<and> u = t \<and> sem_value (semLock (sem_locks s k)) \<noteq> 0 \<and>
          place_of s' t = Idle \<and> sem_heldByThread (sem_locks s' k) = Some t" by simp
    with Resume InWait ok show ?thesis by (simp add: sem_lock_ok_vacant)
  qed
qed

lemma sem_step_release_vacant:
  "sem_lock_ok s l \<Longrightarrow> sem_step s (Call t (SemRelease l)) = Inr s' \<Longrightarrow> vacant (acquired s') l"
  by (auto split: if_splits dest: SemLock_Release_vacant)

subsection \<open>What a release does, and who takes a free lock\<close>

lemma step_release_wakes_head:
  assumes ok: "lock_ok s l" and st: "step s (Call t (Release l)) = Inr s'"
  shows "vacant (acquired s') l \<and> heldByThread (locks s' l) = None \<and>
         lock_queue (locks s' l) = tl (lock_queue (locks s l)) \<and>
         (\<forall>u. asleep s u \<and> \<not> asleep s' u \<longrightarrow> (\<exists>q. lock_queue (locks s l) = u # q))"
proof -
  from st have r: "Lock_Release t l s = Inr s'" by (auto split: if_splits)
  from Lock_Release_vacant[OF ok r]
  have a: "vacant (acquired s') l" "heldByThread (locks s' l) = None" by simp_all
  from r have b: "lock_queue (locks s' l) = tl (lock_queue (locks s l)) \<and>
         (\<forall>u. asleep s u \<and> \<not> asleep s' u \<longrightarrow> (\<exists>q. lock_queue (locks s l) = u # q))"
    by (cases "lock_queue (locks s l)")
      (auto simp: Lock_Release_def Remove_def ReadyToRun_def Let_def split: if_splits)
  with a show ?thesis by simp
qed

lemma lock_ok_vacant_iff: "lock_ok s l \<Longrightarrow> vacant (acquired s) l \<longleftrightarrow> mutex (locks s l) \<noteq> 0"
  by (cases "heldByThread (locks s l)") (auto simp: lock_ok_def vacant_def)

lemma free_lock_goes_to_the_caller:
  assumes ok: "lock_ok s l" and v: "vacant (acquired s) l"
    and i: "place_of s v = Idle" "\<not> asleep s v"
  shows "\<exists>s'. step s (Call v (Acquire l)) = Inr s' \<and> acquired s' l v \<and> place_of s' v = Idle \<and>
           \<not> asleep s' v"
proof -
  from ok v have m: "mutex (locks s l) \<noteq> 0" by (simp add: lock_ok_vacant_iff)
  with ok have "heldByThread (locks s l) = None" by (auto simp: lock_ok_def)
  with m i show ?thesis
    by (simp add: Lock_Acquire_def isHeldByCurrentThread_def Acquire_loop_def Let_def)
qed

lemma waiter_resumes:
  assumes ok: "lock_ok s l" and p: "place_of s u = InAcquire l fw" "\<not> asleep s u"
  shows "\<exists>s'. step s (Resume u) = Inr s' \<and>
           (if vacant (acquired s) l
            then acquired s' l u \<and> place_of s' u = Idle \<and> \<not> asleep s' u
            else asleep s' u \<and> place_of s' u = InAcquire l fw \<and> acquired s' = acquired s \<and>
                 lock_queue (locks s' l) = lock_queue (locks s l) @ [u])"
  using p lock_ok_vacant_iff[OF ok]
  by (simp add: Acquire_loop_def Let_def Append_def Sleep_def)

lemma sem_step_release_wakes_head:
  assumes ok: "sem_lock_ok s l" and st: "sem_step s (Call t (SemRelease l)) = Inr s'"
  shows "vacant (acquired s') l \<and> sem_heldByThread (sem_locks s' l) = None \<and>
         sem_queue (semLock (sem_locks s' l)) = tl (sem_queue (semLock (sem_locks s l))) \<and>
         (\<forall>u. asleep s u \<and> \<not> asleep s' u \<longrightarrow>
            (\<exists>q. sem_queue (semLock (sem_locks s l)) = u # q))"
proof -
  from st have r: "SemLock_Release t l s = Inr s'" by (auto split: if_splits)
  from SemLock_Release_vacant[OF ok r]
  have a: "vacant (acquired s') l" "sem_heldByThread (sem_locks s' l) = None" by simp_all
  from r have h: "sem_heldByThread (sem_locks s l) = Some t"
    by (auto simp: SemLock_Release_def split: if_splits)
  with ok have z: "sem_value (semLock (sem_locks s l)) = 0" by (auto simp: sem_lock_ok_def)
  from r h z have b: "sem_queue (semLock (sem_locks s' l)) = tl (sem_queue (semLock (sem_locks s l))) \<and>
         (\<forall>u. asleep s u \<and> \<not> asleep s' u \<longrightarrow>
            (\<exists>q. sem_queue (semLock (sem_locks s l)) = u # q))"
    by (cases "sem_queue (semLock (sem_locks s l))")
      (auto simp: SemLock_Release_def Semaphore_V_def V_steps_def Remove_def ReadyToRun_def Let_def
        split: if_splits)
  with a show ?thesis by simp
qed

lemma sem_lock_ok_vacant_iff:
  "sem_lock_ok s l \<Longrightarrow> vacant (acquired s) l \<longleftrightarrow> sem_value (semLock (sem_locks s l)) \<noteq> 0"
  by (cases "sem_heldByThread (sem_locks s l)") (auto simp: sem_lock_ok_def vacant_def)

lemma sem_free_lock_goes_to_the_caller:
  assumes ok: "sem_lock_ok s l" and v: "vacant (acquired s) l"
    and i: "place_of s v = Idle" "\<not> asleep s v"
  shows "\<exists>s'. sem_step s (Call v (SemAcquire l)) = Inr s' \<and> acquired s' l v \<and>
           place_of s' v = Idle \<and> \<not> asleep s' v"
proof -
  from ok v have m: "sem_value (semLock (sem_locks s l)) \<noteq> 0" by (simp add: sem_lock_ok_vacant_iff)
  with ok have "sem_heldByThread (sem_locks s l) = None" by (auto simp: sem_lock_ok_def)
  with m i show ?thesis
    by (simp add: SemLock_Acquire_def SemLock_Acquire_P_def Semaphore_P_def Let_def)
qed

lemma sem_waiter_resumes:
  assumes ok: "sem_lock_ok s l" and p: "place_of s u = InAcquire l fw" "\<not> asleep s u"
  shows "\<exists>s'. sem_step s (Resume u) = Inr s' \<and>
           (if vacant (acquired s) l
            then acquired s' l u \<and> place_of s' u = Idle \<and> \<not> asleep s' u
            else asleep s' u \<and> place_of s' u = InAcquire l fw \<and> acquired s' = acquired s \<and>
                 sem_queue (semLock (sem_locks s' l)) =
                   sem_queue (semLock (sem_locks s l)) @ [u])"
  using p sem_lock_ok_vacant_iff[OF ok]
  by (simp add: SemLock_Acquire_P_def Semaphore_P_def Let_def Append_def Sleep_def)

subsection \<open>Mutual exclusion\<close>

text \<open>
  C1 as stated fails in its second half: after a \<^verbatim>\<open>Release\<close> the woken waiter is not the
  only thread that can acquire the lock. Thread 1 holds lock 0 and thread 2 is queued on
  it. Thread 1 releases: the lock is free and thread 2 is runnable, still inside
  \<^verbatim>\<open>Acquire\<close>. Thread 3, which never waited, calls \<^verbatim>\<open>Acquire\<close> before thread 2 runs and
  returns as the holder. Thread 2 then resumes, finds the lock taken, queues again and
  sleeps. The same happens in both implementations.
\<close>

theorem woken_waiter_is_overtaken:
  "(case exec [Call 1 (Acquire 0), Call 2 (Acquire 0), Call 1 (Release 0)] system_new of
      Inl e \<Rightarrow> False
    | Inr s \<Rightarrow> \<not> acquired s 0 1 \<and> \<not> acquired s 0 2 \<and> \<not> acquired s 0 3 \<and>
               \<not> asleep s 2 \<and> place_of s 2 = InAcquire 0 False \<and> place_of s 3 = Idle) \<and>
   (case exec [Call 1 (Acquire 0), Call 2 (Acquire 0), Call 1 (Release 0),
               Call 3 (Acquire 0)] system_new of
      Inl e \<Rightarrow> False
    | Inr s \<Rightarrow> acquired s 0 3 \<and> place_of s 3 = Idle \<and> heldByThread (locks s 0) = Some 3 \<and>
               \<not> acquired s 0 2 \<and> \<not> asleep s 2 \<and> place_of s 2 = InAcquire 0 False) \<and>
   (case exec [Call 1 (Acquire 0), Call 2 (Acquire 0), Call 1 (Release 0),
               Call 3 (Acquire 0), Resume 2] system_new of
      Inl e \<Rightarrow> False
    | Inr s \<Rightarrow> acquired s 0 3 \<and> \<not> acquired s 0 2 \<and> asleep s 2 \<and>
               place_of s 2 = InAcquire 0 False \<and> lock_queue (locks s 0) = [2]) \<and>
   (case sem_exec [Call 1 (SemAcquire 0), Call 2 (SemAcquire 0), Call 1 (SemRelease 0)]
           (sem_system_new no_tokens) of
      Inl e \<Rightarrow> False
    | Inr s \<Rightarrow> \<not> acquired s 0 1 \<and> \<not> acquired s 0 2 \<and> \<not> acquired s 0 3 \<and>
               \<not> asleep s 2 \<and> place_of s 2 = InAcquire 0 False \<and> place_of s 3 = Idle) \<and>
   (case sem_exec [Call 1 (SemAcquire 0), Call 2 (SemAcquire 0), Call 1 (SemRelease 0),
                   Call 3 (SemAcquire 0)] (sem_system_new no_tokens) of
      Inl e \<Rightarrow> False
    | Inr s \<Rightarrow> acquired s 0 3 \<and> place_of s 3 = Idle \<and>
               sem_heldByThread (sem_locks s 0) = Some 3 \<and>
               \<not> acquired s 0 2 \<and> \<not> asleep s 2 \<and> place_of s 2 = InAcquire 0 False) \<and>
   (case sem_exec [Call 1 (SemAcquire 0), Call 2 (SemAcquire 0), Call 1 (SemRelease 0),
                   Call 3 (SemAcquire 0), Resume 2] (sem_system_new no_tokens) of
      Inl e \<Rightarrow> False
    | Inr s \<Rightarrow> acquired s 0 3 \<and> \<not> acquired s 0 2 \<and> asleep s 2 \<and>
               place_of s 2 = InAcquire 0 False \<and>
               sem_queue (semLock (sem_locks s 0)) = [2])"
  by (simp add: sem_model lock_model queue_model)

text \<open>
  C1 (amended). Mutual exclusion, for both implementations of \<^verbatim>\<open>Lock\<close>, every lock \<open>l\<close> and
  every schedule of calls and resumptions (of \<^verbatim>\<open>Acquire\<close>, \<^verbatim>\<open>Release\<close> and the condition
  operations, by any threads) that runs from the initial state without a failed
  assertion. In the state reached:

  \<^item> at most one thread has an \<^verbatim>\<open>Acquire\<close> of \<open>l\<close> that returned and is not yet released;

  \<^item> a thread \<open>u\<close> becomes such a holder only by a step of its own that completes the
    acquire sequence (its call of \<^verbatim>\<open>Acquire\<close>, or its resumption inside \<^verbatim>\<open>Acquire\<close> or
    \<^verbatim>\<open>Wait\<close>), taken when no thread holds \<open>l\<close>; after the step the owner field names \<open>u\<close>;

  \<^item> a \<^verbatim>\<open>Release\<close> leaves the lock with no holder and takes the first waiter off the lock's
    queue; the only thread it can make runnable is that waiter, which is not made the
    holder by the release;

  \<^item> a free lock goes to whichever runnable thread calls \<^verbatim>\<open>Acquire\<close> next, whether it
    waited or not;

  \<^item> a woken waiter that resumes takes the lock if it is free, and otherwise appends itself
    to the queue and sleeps again.
\<close>

theorem lock_mutual_exclusion:
  "(exec evs system_new = Inr s \<longrightarrow>
      exclusive (acquired s) l \<and>
      (\<forall>ev s' u. step s ev = Inr s' \<and> \<not> acquired s l u \<and> acquired s' l u \<longrightarrow>
         (ev = Call u (Acquire l) \<or>
          ev = Resume u \<and> ((\<exists>fw. place_of s u = InAcquire l fw) \<or> (\<exists>c. place_of s u = InWait c l))) \<and>
         vacant (acquired s) l \<and> place_of s' u = Idle \<and> heldByThread (locks s' l) = Some u) \<and>
      (\<forall>t s'. step s (Call t (Release l)) = Inr s' \<longrightarrow>
         vacant (acquired s') l \<and> heldByThread (locks s' l) = None \<and>
         lock_queue (locks s' l) = tl (lock_queue (locks s l)) \<and>
         (\<forall>u. asleep s u \<and> \<not> asleep s' u \<longrightarrow> (\<exists>q. lock_queue (locks s l) = u # q))) \<and>
      (\<forall>v. vacant (acquired s) l \<and> place_of s v = Idle \<and> \<not> asleep s v \<longrightarrow>
         (\<exists>s'. step s (Call v (Acquire l)) = Inr s' \<and> acquired s' l v \<and>
               place_of s' v = Idle \<and> \<not> asleep s' v)) \<and>
      (\<forall>u fw. place_of s u = InAcquire l fw \<and> \<not> asleep s u \<longrightarrow>
         (\<exists>s'. step s (Resume u) = Inr s' \<and>
            (if vacant (acquired s) l
             then acquired s' l u \<and> place_of s' u = Idle \<and> \<not> asleep s' u
             else asleep s' u \<and> place_of s' u = InAcquire l fw \<and> acquired s' = acquired s \<and>
                  lock_queue (locks s' l) = lock_queue (locks s l) @ [u])))) \<and>
   (sem_exec sevs (sem_system_new iv) = Inr z \<longrightarrow>
      exclusive (acquired z) l \<and>
      (\<forall>ev z' u. sem_step z ev = Inr z' \<and> \<not> acquired z l u \<and> acquired z' l u \<longrightarrow>
         (ev = Call u (SemAcquire l) \<or>
          ev = Resume u \<and> ((\<exists>fw. place_of z u = InAcquire l fw) \<or> (\<exists>c. place_of z u = InWait c l))) \<and>
         vacant (acquired z) l \<and> place_of z' u = Idle \<and>
         sem_heldByThread (sem_locks z' l) = Some u) \<and>
      (\<forall>t z'. sem_step z (Call t (SemRelease l)) = Inr z' \<longrightarrow>
         vacant (acquired z') l \<and> sem_heldByThread (sem_locks z' l) = None \<and>
         sem_queue (semLock (sem_locks z' l)) = tl (sem_queue (semLock (sem_locks z l))) \<and>
         (\<forall>u. asleep z u \<and> \<not> asleep z' u \<longrightarrow>
            (\<exists>q. sem_queue (semLock (sem_locks z l)) = u # q))) \<and>
      (\<forall>v. vacant (acquired z) l \<and> place_of z v = Idle \<and> \<not> asleep z v \<longrightarrow>
         (\<exists>z'. sem_step z (Call v (SemAcquire l)) = Inr z' \<and> acquired z' l v \<and>
               place_of z' v = Idle \<and> \<not> asleep z' v)) \<and>
      (\<forall>u fw. place_of z u = InAcquire l fw \<and> \<not> asleep z u \<longrightarrow>
         (\<exists>z'. sem_step z (Resume u) = Inr z' \<and>
            (if vacant (acquired z) l
             then acquired z' l u \<and> place_of z' u = Idle \<and> \<not> asleep z' u
             else asleep z' u \<and> place_of z' u = InAcquire l fw \<and> acquired z' = acquired z \<and>
                  sem_queue (semLock (sem_locks z' l)) =
                    sem_queue (semLock (sem_locks z l)) @ [u]))))"
proof (rule conjI; rule impI)
  assume e: "exec evs system_new = Inr s"
  have ok: "lock_ok s l" using lock_ok_new e by (rule exec_ok)
  have a: "exclusive (acquired s) l" using ok by (rule lock_ok_exclusive)
  have b: "\<forall>ev s' u. step s ev = Inr s' \<and> \<not> acquired s l u \<and> acquired s' l u \<longrightarrow>
         (ev = Call u (Acquire l) \<or>
          ev = Resume u \<and> ((\<exists>fw. place_of s u = InAcquire l fw) \<or> (\<exists>c. place_of s u = InWait c l))) \<and>
         vacant (acquired s) l \<and> place_of s' u = Idle \<and> heldByThread (locks s' l) = Some u"
    using step_enters[OF ok] by blast
  have c: "\<forall>t s'. step s (Call t (Release l)) = Inr s' \<longrightarrow>
         vacant (acquired s') l \<and> heldByThread (locks s' l) = None \<and>
         lock_queue (locks s' l) = tl (lock_queue (locks s l)) \<and>
         (\<forall>u. asleep s u \<and> \<not> asleep s' u \<longrightarrow> (\<exists>q. lock_queue (locks s l) = u # q))"
    using step_release_wakes_head[OF ok] by blast
  have d: "\<forall>v. vacant (acquired s) l \<and> place_of s v = Idle \<and> \<not> asleep s v \<longrightarrow>
         (\<exists>s'. step s (Call v (Acquire l)) = Inr s' \<and> acquired s' l v \<and>
               place_of s' v = Idle \<and> \<not> asleep s' v)"
    using free_lock_goes_to_the_caller[OF ok] by blast
  have f: "\<forall>u fw. place_of s u = InAcquire l fw \<and> \<not> asleep s u \<longrightarrow>
         (\<exists>s'. step s (Resume u) = Inr s' \<and>
            (if vacant (acquired s) l
             then acquired s' l u \<and> place_of s' u = Idle \<and> \<not> asleep s' u
             else asleep s' u \<and> place_of s' u = InAcquire l fw \<and> acquired s' = acquired s \<and>
                  lock_queue (locks s' l) = lock_queue (locks s l) @ [u]))"
    using waiter_resumes[OF ok] by blast
  show "exclusive (acquired s) l \<and>
      (\<forall>ev s' u. step s ev = Inr s' \<and> \<not> acquired s l u \<and> acquired s' l u \<longrightarrow>
         (ev = Call u (Acquire l) \<or>
          ev = Resume u \<and> ((\<exists>fw. place_of s u = InAcquire l fw) \<or> (\<exists>c. place_of s u = InWait c l))) \<and>
         vacant (acquired s) l \<and> place_of s' u = Idle \<and> heldByThread (locks s' l) = Some u) \<and>
      (\<forall>t s'. step s (Call t (Release l)) = Inr s' \<longrightarrow>
         vacant (acquired s') l \<and> heldByThread (locks s' l) = None \<and>
         lock_queue (locks s' l) = tl (lock_queue (locks s l)) \<and>
         (\<forall>u. asleep s u \<and> \<not> asleep s' u \<longrightarrow> (\<exists>q. lock_queue (locks s l) = u # q))) \<and>
      (\<forall>v. vacant (acquired s) l \<and> place_of s v = Idle \<and> \<not> asleep s v \<longrightarrow>
         (\<exists>s'. step s (Call v (Acquire l)) = Inr s' \<and> acquired s' l v \<and>
               place_of s' v = Idle \<and> \<not> asleep s' v)) \<and>
      (\<forall>u fw. place_of s u = InAcquire l fw \<and> \<not> asleep s u \<longrightarrow>
         (\<exists>s'. step s (Resume u) = Inr s' \<and>
            (if vacant (acquired s) l
             then acquired s' l u \<and> place_of s' u = Idle \<and> \<not> asleep s' u
             else asleep s' u \<and> place_of s' u = InAcquire l fw \<and> acquired s' = acquired s \<and>
                  lock_queue (locks s' l) = lock_queue (locks s l) @ [u])))"
    by (rule conjI[OF a conjI[OF b conjI[OF c conjI[OF d f]]]])
next
  assume e: "sem_exec sevs (sem_system_new iv) = Inr z"
  have ok: "sem_lock_ok z l" using sem_lock_ok_new e by (rule sem_exec_ok)
  have a: "exclusive (acquired z) l" using ok by (rule sem_lock_ok_exclusive)
  have b: "\<forall>ev z' u. sem_step z ev = Inr z' \<and> \<not> acquired z l u \<and> acquired z' l u \<longrightarrow>
         (ev = Call u (SemAcquire l) \<or>
          ev = Resume u \<and> ((\<exists>fw. place_of z u = InAcquire l fw) \<or> (\<exists>c. place_of z u = InWait c l))) \<and>
         vacant (acquired z) l \<and> place_of z' u = Idle \<and>
         sem_heldByThread (sem_locks z' l) = Some u"
    using sem_step_enters[OF ok] by blast
  have c: "\<forall>t z'. sem_step z (Call t (SemRelease l)) = Inr z' \<longrightarrow>
         vacant (acquired z') l \<and> sem_heldByThread (sem_locks z' l) = None \<and>
         sem_queue (semLock (sem_locks z' l)) = tl (sem_queue (semLock (sem_locks z l))) \<and>
         (\<forall>u. asleep z u \<and> \<not> asleep z' u \<longrightarrow>
            (\<exists>q. sem_queue (semLock (sem_locks z l)) = u # q))"
    using sem_step_release_wakes_head[OF ok] by blast
  have d: "\<forall>v. vacant (acquired z) l \<and> place_of z v = Idle \<and> \<not> asleep z v \<longrightarrow>
         (\<exists>z'. sem_step z (Call v (SemAcquire l)) = Inr z' \<and> acquired z' l v \<and>
               place_of z' v = Idle \<and> \<not> asleep z' v)"
    using sem_free_lock_goes_to_the_caller[OF ok] by blast
  have f: "\<forall>u fw. place_of z u = InAcquire l fw \<and> \<not> asleep z u \<longrightarrow>
         (\<exists>z'. sem_step z (Resume u) = Inr z' \<and>
            (if vacant (acquired z) l
             then acquired z' l u \<and> place_of z' u = Idle \<and> \<not> asleep z' u
             else asleep z' u \<and> place_of z' u = InAcquire l fw \<and> acquired z' = acquired z \<and>
                  sem_queue (semLock (sem_locks z' l)) =
                    sem_queue (semLock (sem_locks z l)) @ [u]))"
    using sem_waiter_resumes[OF ok] by blast
  show "exclusive (acquired z) l \<and>
      (\<forall>ev z' u. sem_step z ev = Inr z' \<and> \<not> acquired z l u \<and> acquired z' l u \<longrightarrow>
         (ev = Call u (SemAcquire l) \<or>
          ev = Resume u \<and> ((\<exists>fw. place_of z u = InAcquire l fw) \<or> (\<exists>c. place_of z u = InWait c l))) \<and>
         vacant (acquired z) l \<and> place_of z' u = Idle \<and>
         sem_heldByThread (sem_locks z' l) = Some u) \<and>
      (\<forall>t z'. sem_step z (Call t (SemRelease l)) = Inr z' \<longrightarrow>
         vacant (acquired z') l \<and> sem_heldByThread (sem_locks z' l) = None \<and>
         sem_queue (semLock (sem_locks z' l)) = tl (sem_queue (semLock (sem_locks z l))) \<and>
         (\<forall>u. asleep z u \<and> \<not> asleep z' u \<longrightarrow>
            (\<exists>q. sem_queue (semLock (sem_locks z l)) = u # q))) \<and>
      (\<forall>v. vacant (acquired z) l \<and> place_of z v = Idle \<and> \<not> asleep z v \<longrightarrow>
         (\<exists>z'. sem_step z (Call v (SemAcquire l)) = Inr z' \<and> acquired z' l v \<and>
               place_of z' v = Idle \<and> \<not> asleep z' v)) \<and>
      (\<forall>u fw. place_of z u = InAcquire l fw \<and> \<not> asleep z u \<longrightarrow>
         (\<exists>z'. sem_step z (Resume u) = Inr z' \<and>
            (if vacant (acquired z) l
             then acquired z' l u \<and> place_of z' u = Idle \<and> \<not> asleep z' u
             else asleep z' u \<and> place_of z' u = InAcquire l fw \<and> acquired z' = acquired z \<and>
                  sem_queue (semLock (sem_locks z' l)) =
                    sem_queue (semLock (sem_locks z l)) @ [u])))"
    by (rule conjI[OF a conjI[OF b conjI[OF c conjI[OF d f]]]])
qed

text \<open>
  An instance, in both implementations: thread 1 holds lock 0 with thread 2 queued on it
  and releases; the lock is free and thread 2 runnable. If thread 2 resumes next it takes
  the lock; if thread 3 calls \<^verbatim>\<open>Acquire\<close> first, thread 3 takes it and thread 2 queues
  again.
\<close>

theorem lock_mutual_exclusion_witness:
  "(\<exists>s0 s s'. exec [Call 1 (Acquire 0), Call 2 (Acquire 0)] system_new = Inr s0 \<and>
       step s0 (Call 1 (Release 0)) = Inr s \<and>
       exclusive (acquired s) 0 \<and> vacant (acquired s) 0 \<and> lock_queue (locks s 0) = [] \<and>
       step s (Resume 2) = Inr s' \<and> acquired s' 0 2 \<and> place_of s' 2 = Idle) \<and>
   (\<exists>s s'. exec [Call 1 (Acquire 0), Call 2 (Acquire 0), Call 1 (Release 0)] system_new = Inr s \<and>
       step s (Call 3 (Acquire 0)) = Inr s' \<and> acquired s' 0 3) \<and>
   (\<exists>s s'. exec [Call 1 (Acquire 0), Call 2 (Acquire 0), Call 1 (Release 0),
                 Call 3 (Acquire 0)] system_new = Inr s \<and>
       step s (Resume 2) = Inr s' \<and> asleep s' 2 \<and> lock_queue (locks s' 0) = [2]) \<and>
   (\<exists>z0 z z'. sem_exec [Call 1 (SemAcquire 0), Call 2 (SemAcquire 0)]
                  (sem_system_new no_tokens) = Inr z0 \<and>
       sem_step z0 (Call 1 (SemRelease 0)) = Inr z \<and>
       exclusive (acquired z) 0 \<and> vacant (acquired z) 0 \<and>
       sem_queue (semLock (sem_locks z 0)) = [] \<and>
       sem_step z (Resume 2) = Inr z' \<and> acquired z' 0 2 \<and> place_of z' 2 = Idle) \<and>
   (\<exists>z z'. sem_exec [Call 1 (SemAcquire 0), Call 2 (SemAcquire 0), Call 1 (SemRelease 0)]
               (sem_system_new no_tokens) = Inr z \<and>
       sem_step z (Call 3 (SemAcquire 0)) = Inr z' \<and> acquired z' 0 3) \<and>
   (\<exists>z z'. sem_exec [Call 1 (SemAcquire 0), Call 2 (SemAcquire 0), Call 1 (SemRelease 0),
                     Call 3 (SemAcquire 0)] (sem_system_new no_tokens) = Inr z \<and>
       sem_step z (Resume 2) = Inr z' \<and> asleep z' 2 \<and>
       sem_queue (semLock (sem_locks z' 0)) = [2])"
proof -
  have "\<exists>s0 s s3. exec [Call 1 (Acquire 0), Call 2 (Acquire 0)] system_new = Inr s0 \<and>
       step s0 (Call 1 (Release 0)) = Inr s \<and>
       exec [Call 1 (Acquire 0), Call 2 (Acquire 0), Call 1 (Release 0)] system_new = Inr s \<and>
       exec [Call 1 (Acquire 0), Call 2 (Acquire 0), Call 1 (Release 0),
             Call 3 (Acquire 0)] system_new = Inr s3 \<and>
       lock_queue (locks s0 0) = [2] \<and>
       place_of s 2 = InAcquire 0 False \<and> \<not> asleep s 2 \<and> place_of s 3 = Idle \<and> \<not> asleep s 3 \<and>
       place_of s3 2 = InAcquire 0 False \<and> \<not> asleep s3 2 \<and> acquired s3 0 3 \<and>
       lock_queue (locks s3 0) = []"
    by (simp add: lock_model queue_model)
  then obtain s0 s s3 where
    e0: "exec [Call 1 (Acquire 0), Call 2 (Acquire 0)] system_new = Inr s0"
    and st: "step s0 (Call 1 (Release 0)) = Inr s"
    and e1: "exec [Call 1 (Acquire 0), Call 2 (Acquire 0), Call 1 (Release 0)] system_new = Inr s"
    and e3: "exec [Call 1 (Acquire 0), Call 2 (Acquire 0), Call 1 (Release 0),
                   Call 3 (Acquire 0)] system_new = Inr s3"
    and q0: "lock_queue (locks s0 0) = [2]"
    and p: "place_of s 2 = InAcquire 0 False" "\<not> asleep s 2" "place_of s 3 = Idle" "\<not> asleep s 3"
    and p3: "place_of s3 2 = InAcquire 0 False" "\<not> asleep s3 2" "acquired s3 0 3"
      "lock_queue (locks s3 0) = []"
    by blast
  have "\<exists>z0 z z3. sem_exec [Call 1 (SemAcquire 0), Call 2 (SemAcquire 0)]
                  (sem_system_new no_tokens) = Inr z0 \<and>
       sem_step z0 (Call 1 (SemRelease 0)) = Inr z \<and>
       sem_exec [Call 1 (SemAcquire 0), Call 2 (SemAcquire 0), Call 1 (SemRelease 0)]
         (sem_system_new no_tokens) = Inr z \<and>
       sem_exec [Call 1 (SemAcquire 0), Call 2 (SemAcquire 0), Call 1 (SemRelease 0),
                 Call 3 (SemAcquire 0)] (sem_system_new no_tokens) = Inr z3 \<and>
       sem_queue (semLock (sem_locks z0 0)) = [2] \<and>
       place_of z 2 = InAcquire 0 False \<and> \<not> asleep z 2 \<and> place_of z 3 = Idle \<and> \<not> asleep z 3 \<and>
       place_of z3 2 = InAcquire 0 False \<and> \<not> asleep z3 2 \<and> acquired z3 0 3 \<and>
       sem_queue (semLock (sem_locks z3 0)) = []"
    by (simp add: sem_model queue_model)
  then obtain z0 z z3 where
    f0: "sem_exec [Call 1 (SemAcquire 0), Call 2 (SemAcquire 0)] (sem_system_new no_tokens) = Inr z0"
    and zt: "sem_step z0 (Call 1 (SemRelease 0)) = Inr z"
    and f1: "sem_exec [Call 1 (SemAcquire 0), Call 2 (SemAcquire 0), Call 1 (SemRelease 0)]
               (sem_system_new no_tokens) = Inr z"
    and f3: "sem_exec [Call 1 (SemAcquire 0), Call 2 (SemAcquire 0), Call 1 (SemRelease 0),
                       Call 3 (SemAcquire 0)] (sem_system_new no_tokens) = Inr z3"
    and r0: "sem_queue (semLock (sem_locks z0 0)) = [2]"
    and r: "place_of z 2 = InAcquire 0 False" "\<not> asleep z 2" "place_of z 3 = Idle" "\<not> asleep z 3"
    and r3: "place_of z3 2 = InAcquire 0 False" "\<not> asleep z3 2" "acquired z3 0 3"
      "sem_queue (semLock (sem_locks z3 0)) = []"
    by blast
  note t0 = lock_mutual_exclusion
    [of "[Call 1 (Acquire 0), Call 2 (Acquire 0)]" s0 0
        "[Call 1 (SemAcquire 0), Call 2 (SemAcquire 0)]" no_tokens z0]
  note t1 = lock_mutual_exclusion
    [of "[Call 1 (Acquire 0), Call 2 (Acquire 0), Call 1 (Release 0)]" s 0
        "[Call 1 (SemAcquire 0), Call 2 (SemAcquire 0), Call 1 (SemRelease 0)]" no_tokens z]
  note t3 = lock_mutual_exclusion
    [of "[Call 1 (Acquire 0), Call 2 (Acquire 0), Call 1 (Release 0), Call 3 (Acquire 0)]" s3 0
        "[Call 1 (SemAcquire 0), Call 2 (SemAcquire 0), Call 1 (SemRelease 0),
          Call 3 (SemAcquire 0)]" no_tokens z3]
  note a0 = t0[THEN conjunct1, THEN mp, OF e0] and a1 = t1[THEN conjunct1, THEN mp, OF e1]
    and a3 = t3[THEN conjunct1, THEN mp, OF e3]
  note b0 = t0[THEN conjunct2, THEN mp, OF f0] and b1 = t1[THEN conjunct2, THEN mp, OF f1]
    and b3 = t3[THEN conjunct2, THEN mp, OF f3]
  from a0[THEN conjunct2, THEN conjunct2, THEN conjunct1] st q0
  have v: "vacant (acquired s) 0" "lock_queue (locks s 0) = []" by auto
  from a1 have x: "exclusive (acquired s) 0" by (rule conjunct1)
  from a1[THEN conjunct2, THEN conjunct2, THEN conjunct2, THEN conjunct2] p v
  obtain s' where s': "step s (Resume 2) = Inr s'" "acquired s' 0 2" "place_of s' 2 = Idle"
    by (auto simp del: step.simps)
  from a1[THEN conjunct2, THEN conjunct2, THEN conjunct2, THEN conjunct1] p v
  obtain s'' where s'': "step s (Call 3 (Acquire 0)) = Inr s''" "acquired s'' 0 3"
    by (auto simp del: step.simps)
  have n3: "\<not> vacant (acquired s3) 0" using p3 by (auto simp: vacant_def)
  from a3[THEN conjunct2, THEN conjunct2, THEN conjunct2, THEN conjunct2] p3 n3
  obtain s4 where s4: "step s3 (Resume 2) = Inr s4" "asleep s4 2" "lock_queue (locks s4 0) = [2]"
    by (auto simp del: step.simps)
  from b0[THEN conjunct2, THEN conjunct2, THEN conjunct1] zt r0
  have w: "vacant (acquired z) 0" "sem_queue (semLock (sem_locks z 0)) = []" by auto
  from b1 have y: "exclusive (acquired z) 0" by (rule conjunct1)
  from b1[THEN conjunct2, THEN conjunct2, THEN conjunct2, THEN conjunct2] r w
  obtain z' where z': "sem_step z (Resume 2) = Inr z'" "acquired z' 0 2" "place_of z' 2 = Idle"
    by (auto simp del: sem_step.simps)
  from b1[THEN conjunct2, THEN conjunct2, THEN conjunct2, THEN conjunct1] r w
  obtain z'' where z'': "sem_step z (Call 3 (SemAcquire 0)) = Inr z''" "acquired z'' 0 3"
    by (auto simp del: sem_step.simps)
  have m3: "\<not> vacant (acquired z3) 0" using r3 by (auto simp: vacant_def)
  from b3[THEN conjunct2, THEN conjunct2, THEN conjunct2, THEN conjunct2] r3 m3
  obtain z4 where z4: "sem_step z3 (Resume 2) = Inr z4" "asleep z4 2"
    "sem_queue (semLock (sem_locks z4 0)) = [2]"
    by (auto simp del: sem_step.simps)
  have c1: "\<exists>s0 s s'. exec [Call 1 (Acquire 0), Call 2 (Acquire 0)] system_new = Inr s0 \<and>
       step s0 (Call 1 (Release 0)) = Inr s \<and>
       exclusive (acquired s) 0 \<and> vacant (acquired s) 0 \<and> lock_queue (locks s 0) = [] \<and>
       step s (Resume 2) = Inr s' \<and> acquired s' 0 2 \<and> place_of s' 2 = Idle"
    using e0 st x v s' by blast
  have c2: "\<exists>s s'. exec [Call 1 (Acquire 0), Call 2 (Acquire 0), Call 1 (Release 0)] system_new = Inr s \<and>
       step s (Call 3 (Acquire 0)) = Inr s' \<and> acquired s' 0 3"
    using e1 s'' by blast
  have c3: "\<exists>s s'. exec [Call 1 (Acquire 0), Call 2 (Acquire 0), Call 1 (Release 0),
                 Call 3 (Acquire 0)] system_new = Inr s \<and>
       step s (Resume 2) = Inr s' \<and> asleep s' 2 \<and> lock_queue (locks s' 0) = [2]"
    using e3 s4 by blast
  have c4: "\<exists>z0 z z'. sem_exec [Call 1 (SemAcquire 0), Call 2 (SemAcquire 0)]
                  (sem_system_new no_tokens) = Inr z0 \<and>
       sem_step z0 (Call 1 (SemRelease 0)) = Inr z \<and>
       exclusive (acquired z) 0 \<and> vacant (acquired z) 0 \<and>
       sem_queue (semLock (sem_locks z 0)) = [] \<and>
       sem_step z (Resume 2) = Inr z' \<and> acquired z' 0 2 \<and> place_of z' 2 = Idle"
    using f0 zt y w z' by blast
  have c5: "\<exists>z z'. sem_exec [Call 1 (SemAcquire 0), Call 2 (SemAcquire 0), Call 1 (SemRelease 0)]
               (sem_system_new no_tokens) = Inr z \<and>
       sem_step z (Call 3 (SemAcquire 0)) = Inr z' \<and> acquired z' 0 3"
    using f1 z'' by blast
  have c6: "\<exists>z z'. sem_exec [Call 1 (SemAcquire 0), Call 2 (SemAcquire 0), Call 1 (SemRelease 0),
                     Call 3 (SemAcquire 0)] (sem_system_new no_tokens) = Inr z \<and>
       sem_step z (Resume 2) = Inr z' \<and> asleep z' 2 \<and>
       sem_queue (semLock (sem_locks z' 0)) = [2]"
    using f3 z4 by blast
  show ?thesis
    by (rule conjI[OF c1 conjI[OF c2 conjI[OF c3 conjI[OF c4 conjI[OF c5 c6]]]]])
qed

subsection \<open>Broadcast\<close>

text \<open>
  C2 on \<^verbatim>\<open>synch-sem.cc\<close>, at two waiters. Threads 1 and 2 wait on condition 0 with lock
  0; thread 3 takes the lock and broadcasts. After the call both waiters are runnable and
  the semaphore's queue is empty, but its value, raised to 2 by the two \<^verbatim>\<open>V\<close>, has been
  cut to 1. Thread 3 releases, thread 1 resumes, returns from \<^verbatim>\<open>Wait\<close> and releases;
  thread 2 resumes inside \<^verbatim>\<open>P\<close>, finds the value 0, appends itself to the queue and
  sleeps again: it is blocked on the condition after the broadcast.
\<close>

theorem sem_broadcast_strands_waiter:
  "(case sem_exec [Call 1 (SemAcquire 0), Call 1 (SemWait 0 0),
                   Call 2 (SemAcquire 0), Call 2 (SemWait 0 0),
                   Call 3 (SemAcquire 0), Call 3 (SemBroadcast 0 0)] (sem_system_new no_tokens) of
      Inl e \<Rightarrow> False
    | Inr s \<Rightarrow> \<not> asleep s 1 \<and> \<not> asleep s 2 \<and>
               place_of s 1 = InWait 0 0 \<and> place_of s 2 = InWait 0 0 \<and>
               sem_queue (semCond (sem_conditions s 0)) = [] \<and>
               sem_value (semCond (sem_conditions s 0)) = 1) \<and>
   (case sem_exec [Call 1 (SemAcquire 0), Call 1 (SemWait 0 0),
                   Call 2 (SemAcquire 0), Call 2 (SemWait 0 0),
                   Call 3 (SemAcquire 0), Call 3 (SemBroadcast 0 0), Call 3 (SemRelease 0),
                   Resume 1, Call 1 (SemRelease 0), Resume 2] (sem_system_new no_tokens) of
      Inl e \<Rightarrow> False
    | Inr s \<Rightarrow> place_of s 1 = Idle \<and> place_of s 3 = Idle \<and>
               asleep s 2 \<and> place_of s 2 = InWait 0 0 \<and>
               sem_queue (semCond (sem_conditions s 0)) = [2] \<and>
               sem_value (semCond (sem_conditions s 0)) = 0)"
  by (simp add: sem_model queue_model)

text \<open>
  The same schedule on the wait-queue implementation: both waiters return from
  \<^verbatim>\<open>Wait\<close> and nobody is left on the condition's queue.
\<close>

theorem queue_broadcast_releases_both:
  "(case exec [Call 1 (Acquire 0), Call 1 (Wait 0 0),
               Call 2 (Acquire 0), Call 2 (Wait 0 0),
               Call 3 (Acquire 0), Call 3 (Broadcast 0 0), Call 3 (Release 0),
               Resume 1, Call 1 (Release 0), Resume 2] system_new of
      Inl e \<Rightarrow> False
    | Inr s \<Rightarrow> place_of s 1 = Idle \<and> place_of s 2 = Idle \<and> place_of s 3 = Idle \<and>
               acquired s 0 2 \<and> cond_queue (conditions s 0) = [])"
  by (simp add: lock_model queue_model)

subsection \<open>The lock of a condition\<close>

text \<open>
  C4 on \<^verbatim>\<open>synch-sem.cc\<close>. Thread 1 waits on condition 0 with lock 0; thread 2, holding
  lock 1, signals condition 0 with lock 1. No assertion fails and thread 1 is woken. The
  wait-queue implementation stops the same schedule at the assertion
  \<^verbatim>\<open>ASSERT(firstLock==conditionLock)\<close>.
\<close>

theorem sem_condition_accepts_other_lock:
  "(case sem_exec [Call 1 (SemAcquire 0), Call 1 (SemWait 0 0),
                   Call 2 (SemAcquire 1), Call 2 (SemSignal 0 1)] (sem_system_new no_tokens) of
      Inl e \<Rightarrow> False
    | Inr s \<Rightarrow> \<not> asleep s 1 \<and> place_of s 1 = InWait 0 0 \<and> place_of s 2 = Idle) \<and>
   exec [Call 1 (Acquire 0), Call 1 (Wait 0 0),
         Call 2 (Acquire 1), Call 2 (Signal 0 1)] system_new = Inl AssertionFailed"
  by (simp add: sem_model lock_model queue_model)

subsection \<open>The value of a semaphore\<close>

lemma SemLock_Acquire_P_semaphores [simp]:
  "semaphores (SemLock_Acquire_P t l fw s) = semaphores s"
  by (simp add: SemLock_Acquire_P_def Let_def split: prod.splits)

lemma SemLock_Acquire_semaphores:
  "SemLock_Acquire t l fw s = Inr s' \<Longrightarrow> semaphores s' = semaphores s"
  by (auto simp: SemLock_Acquire_def split: if_splits)

lemma SemLock_Release_semaphores:
  "SemLock_Release t l s = Inr s' \<Longrightarrow> semaphores s' = semaphores s"
  by (auto simp: SemLock_Release_def Let_def split: if_splits prod.splits)

lemma SemCondition_Wait_P_semaphores:
  "SemCondition_Wait_P t c l s = Inr s' \<Longrightarrow> semaphores s' = semaphores s"
  by (auto simp: SemCondition_Wait_P_def Let_def split: if_splits prod.splits
      dest: SemLock_Acquire_semaphores)

lemma SemCondition_Wait_semaphores:
  "SemCondition_Wait t c l s = Inr s' \<Longrightarrow> semaphores s' = semaphores s"
proof -
  assume w: "SemCondition_Wait t c l s = Inr s'"
  then obtain s1 where r: "SemLock_Release t l s = Inr s1"
    and p: "SemCondition_Wait_P t c l s1 = Inr s'"
    by (auto simp: SemCondition_Wait_def split: if_splits sum.splits)
  from SemLock_Release_semaphores[OF r] SemCondition_Wait_P_semaphores[OF p]
  show ?thesis by simp
qed

lemma SemCondition_Signal_semaphores:
  "SemCondition_Signal t c l s = Inr s' \<Longrightarrow> semaphores s' = semaphores s"
  by (auto simp: SemCondition_Signal_def Let_def split: if_splits prod.splits)

lemma SemCondition_Broadcast_semaphores:
  "SemCondition_Broadcast t c l s = Inr s' \<Longrightarrow> semaphores s' = semaphores s"
  by (auto simp: SemCondition_Broadcast_def Let_def split: if_splits prod.splits)

lemma P_call_nonneg:
  "0 \<le> sem_value (semaphores s k) \<Longrightarrow> 0 \<le> sem_value (semaphores (P_call t j s) k)"
  by (auto simp: P_call_def Semaphore_P_def)

lemma V_call_nonneg:
  "0 \<le> sem_value (semaphores s k) \<Longrightarrow> 0 \<le> sem_value (semaphores (V_call j s) k)"
  by (auto simp: V_call_def Semaphore_V_def V_steps_def Let_def split: prod.splits option.splits)

lemma sem_step_nonneg:
  assumes n: "0 \<le> sem_value (semaphores s k)" and st: "sem_step s ev = Inr s'"
  shows "0 \<le> sem_value (semaphores s' k)"
proof (cases ev)
  case (Call t r)
  show ?thesis
  proof (cases r)
    case (SemP j)
    with Call st n show ?thesis by (auto split: if_splits simp: P_call_nonneg)
  next
    case (SemV j)
    with Call st n show ?thesis by (auto split: if_splits simp: V_call_nonneg)
  next
    case (SemAcquire l)
    with Call st n show ?thesis by (auto split: if_splits dest: SemLock_Acquire_semaphores)
  next
    case (SemRelease l)
    with Call st n show ?thesis by (auto split: if_splits dest: SemLock_Release_semaphores)
  next
    case (SemWait c l)
    with Call st n show ?thesis by (auto split: if_splits dest: SemCondition_Wait_semaphores)
  next
    case (SemSignal c l)
    with Call st n show ?thesis by (auto split: if_splits dest: SemCondition_Signal_semaphores)
  next
    case (SemBroadcast c l)
    with Call st n show ?thesis
      by (auto split: if_splits dest: SemCondition_Broadcast_semaphores)
  qed
next
  case (Resume t)
  show ?thesis
  proof (cases "place_of s t")
    case Idle
    with Resume st show ?thesis by (simp split: if_splits)
  next
    case (InP j)
    with Resume st n show ?thesis by (auto split: if_splits simp: P_call_nonneg)
  next
    case (InAcquire l fw)
    with Resume st n show ?thesis by (auto split: if_splits)
  next
    case (InWait c l)
    with Resume st n show ?thesis
      by (auto split: if_splits dest: SemCondition_Wait_P_semaphores)
  qed
qed

lemma sem_exec_nonneg:
  "0 \<le> sem_value (semaphores s k) \<Longrightarrow> sem_exec evs s = Inr s' \<Longrightarrow>
   0 \<le> sem_value (semaphores s' k)"
proof (induction evs arbitrary: s)
  case Nil
  then show ?case by simp
next
  case (Cons e es)
  then show ?case by (auto split: sum.splits dest: sem_step_nonneg)
qed

text \<open>
  X3. A semaphore created with a non-negative value never shows a negative value: after
  every schedule of \<^verbatim>\<open>P\<close>, \<^verbatim>\<open>V\<close> and the other operations that runs from the initial
  state, its value is at least 0.
\<close>

theorem semaphore_never_negative:
  "0 \<le> initialValue k \<Longrightarrow> sem_exec evs (sem_system_new initialValue) = Inr s \<Longrightarrow>
   0 \<le> sem_value (semaphores s k)"
  by (rule sem_exec_nonneg [of "sem_system_new initialValue" k evs s])
    (simp_all add: sem_system_new_def Semaphore_new_def)

theorem semaphore_never_negative_witness:
  "\<exists>s. sem_exec [Call 1 (SemV 0), Call 2 (SemP 0), Call 3 (SemP 0)]
          (sem_system_new no_tokens) = Inr s \<and>
       0 \<le> sem_value (semaphores s 0) \<and> asleep s 3"
proof -
  have "\<exists>s. sem_exec [Call 1 (SemV 0), Call 2 (SemP 0), Call 3 (SemP 0)]
          (sem_system_new no_tokens) = Inr s \<and> asleep s 3"
    by (simp add: sem_model queue_model)
  then obtain s where e: "sem_exec [Call 1 (SemV 0), Call 2 (SemP 0), Call 3 (SemP 0)]
          (sem_system_new no_tokens) = Inr s" and a: "asleep s 3" by blast
  have "0 \<le> no_tokens 0" by (simp add: no_tokens_def)
  from semaphore_never_negative [OF this e] e a show ?thesis by blast
qed

subsection \<open>Semaphore\<close>

text \<open>
  C3 as stated ("a released waiter always finds value already incremented") fails.
  Thread 1 blocks in \<^verbatim>\<open>P\<close> on a semaphore of value 0; thread 2 calls \<^verbatim>\<open>V\<close>: thread 1 is
  runnable and the value is 1. Thread 3 calls \<^verbatim>\<open>P\<close> before thread 1 runs and takes the
  value. Thread 1 resumes inside \<^verbatim>\<open>P\<close>, finds the value 0 and sleeps again.
\<close>

theorem released_waiter_finds_zero:
  "(case sem_exec [Call 1 (SemP 0), Call 2 (SemV 0)] (sem_system_new no_tokens) of
      Inl e \<Rightarrow> False
    | Inr s \<Rightarrow> \<not> asleep s 1 \<and> place_of s 1 = InP 0 \<and> sem_value (semaphores s 0) = 1) \<and>
   (case sem_exec [Call 1 (SemP 0), Call 2 (SemV 0), Call 3 (SemP 0), Resume 1]
           (sem_system_new no_tokens) of
      Inl e \<Rightarrow> False
    | Inr s \<Rightarrow> asleep s 1 \<and> place_of s 1 = InP 0 \<and> place_of s 3 = Idle \<and>
               sem_value (semaphores s 0) = 0 \<and> sem_queue (semaphores s 0) = [1])"
  by (simp add: sem_model queue_model)

text \<open>The effect of \<^verbatim>\<open>V\<close> and the order of its statements.\<close>

lemma V_steps_eq:
  "V_steps (sem, sl) =
     (case sem_queue sem of
        [] \<Rightarrow> [(sem, sl), (sem, sl), (sem\<lparr>sem_value := sem_value sem + 1\<rparr>, sl)]
      | th # q \<Rightarrow> [(sem\<lparr>sem_queue := q\<rparr>, sl), (sem\<lparr>sem_queue := q\<rparr>, sl(th := False)),
                   (sem\<lparr>sem_queue := q, sem_value := sem_value sem + 1\<rparr>, sl(th := False))])"
  by (cases sem) (simp add: V_steps_def Remove_def ReadyToRun_def Let_def split: list.splits)

lemma Semaphore_V_eq:
  "Semaphore_V (sem, sl) =
     (case sem_queue sem of
        [] \<Rightarrow> (sem\<lparr>sem_value := sem_value sem + 1\<rparr>, sl)
      | th # q \<Rightarrow> (sem\<lparr>sem_queue := q, sem_value := sem_value sem + 1\<rparr>, sl(th := False)))"
  by (simp add: Semaphore_V_def V_steps_eq split: list.splits)

lemma V_wakes_before_it_increments:
  "(\<forall>m \<in> set (V_steps (sem, sl)).
      sem_value (fst m) \<noteq> sem_value sem \<longrightarrow>
        sem_value (fst m) = sem_value sem + 1 \<and> sem_queue (fst m) = tl (sem_queue sem) \<and>
        (\<forall>th q. sem_queue sem = th # q \<longrightarrow> \<not> snd m th)) \<and>
   (\<forall>th q. sem_queue sem = th # q \<longrightarrow>
      (\<exists>m \<in> set (V_steps (sem, sl)).
         sem_value (fst m) = sem_value sem \<and> sem_queue (fst m) = q \<and> \<not> snd m th))"
  by (cases "sem_queue sem") (simp_all add: V_steps_eq)

lemma V_returns:
  assumes u: "place_of s u = Idle" "\<not> asleep s u"
  shows "\<exists>s'. sem_step s (Call u (SemV k)) = Inr s' \<and>
           place_of s' = place_of s \<and> \<not> asleep s' u \<and>
           sem_value (semaphores s' k) = sem_value (semaphores s k) + 1 \<and>
           sem_queue (semaphores s' k) = tl (sem_queue (semaphores s k)) \<and>
           (\<forall>th q. sem_queue (semaphores s k) = th # q \<longrightarrow> \<not> asleep s' th)"
  using assms by (cases "sem_queue (semaphores s k)") (simp_all add: V_call_def Semaphore_V_eq)

lemma P_blocks_or_decrements:
  assumes u: "place_of s u = Idle" "\<not> asleep s u"
  shows "\<exists>s'. sem_step s (Call u (SemP k)) = Inr s' \<and>
           (if sem_value (semaphores s k) = 0
            then asleep s' u \<and> place_of s' u = InP k \<and>
                 sem_queue (semaphores s' k) = sem_queue (semaphores s k) @ [u] \<and>
                 sem_value (semaphores s' k) = 0
            else \<not> asleep s' u \<and> place_of s' u = Idle \<and>
                 sem_queue (semaphores s' k) = sem_queue (semaphores s k) \<and>
                 sem_value (semaphores s' k) = sem_value (semaphores s k) - 1)"
  using assms
  by (simp add: P_call_def Semaphore_P_def Append_def Sleep_def)

lemma woken_P_blocks_or_decrements:
  assumes u: "place_of s u = InP k" "\<not> asleep s u"
  shows "\<exists>s'. sem_step s (Resume u) = Inr s' \<and>
           (if sem_value (semaphores s k) = 0
            then asleep s' u \<and> place_of s' u = InP k \<and>
                 sem_queue (semaphores s' k) = sem_queue (semaphores s k) @ [u] \<and>
                 sem_value (semaphores s' k) = 0
            else \<not> asleep s' u \<and> place_of s' u = Idle \<and>
                 sem_queue (semaphores s' k) = sem_queue (semaphores s k) \<and>
                 sem_value (semaphores s' k) = sem_value (semaphores s k) - 1)"
  using assms
  by (simp add: P_call_def Semaphore_P_def Append_def Sleep_def)

lemma P_V_never_abort:
  "sem_step s (Call u (SemV k)) \<noteq> Inl AssertionFailed \<and>
   sem_step s (Call u (SemP k)) \<noteq> Inl AssertionFailed \<and>
   (place_of s u = InP k \<longrightarrow> sem_step s (Resume u) \<noteq> Inl AssertionFailed)"
  by simp

text \<open>
  A step of thread \<open>v\<close> leaves every other thread \<open>t\<close> where it is, and does not put it
  to sleep: a thread goes to sleep only by its own \<^verbatim>\<open>Sleep\<close>.
\<close>

lemma Semaphore_P_other:
  "Semaphore_P v (sem, sl) = (b, sem', sl') \<Longrightarrow> t \<noteq> v \<Longrightarrow> \<not> sl t \<Longrightarrow> \<not> sl' t"
  by (auto simp: Semaphore_P_def Sleep_def split: if_splits)

lemma Semaphore_V_other:
  "Semaphore_V (sem, sl) = (sem', sl') \<Longrightarrow> \<not> sl t \<Longrightarrow> \<not> sl' t"
  by (auto simp: Semaphore_V_eq split: list.splits if_splits)

lemma Broadcast_loop_other:
  "Broadcast_loop m = (sem', sl') \<Longrightarrow> \<not> snd m t \<Longrightarrow> \<not> sl' t"
proof (induction m rule: Broadcast_loop.induct)
  case (1 m)
  show ?case
  proof (cases "IsEmpty (sem_queue (fst m))")
    case True
    with "1.prems" show ?thesis by (subst (asm) Broadcast_loop.simps) auto
  next
    case False
    with "1.prems" have b: "Broadcast_loop (Semaphore_V m) = (sem', sl')"
      by (subst (asm) Broadcast_loop.simps) simp
    have "\<not> snd (Semaphore_V m) t"
      using Semaphore_V_other[of "fst m" "snd m" "fst (Semaphore_V m)" "snd (Semaphore_V m)" t]
        "1.prems" by simp
    with "1.IH"[OF False b] show ?thesis by simp
  qed
qed

lemma P_call_other:
  "t \<noteq> v \<Longrightarrow> place_of (P_call v k s) t = place_of s t \<and>
     (\<not> asleep s t \<longrightarrow> \<not> asleep (P_call v k s) t)"
  by (auto simp: P_call_def Semaphore_P_def Sleep_def)

lemma V_call_other:
  "place_of (V_call k s) t = place_of s t \<and> (\<not> asleep s t \<longrightarrow> \<not> asleep (V_call k s) t)"
  by (auto simp: V_call_def Semaphore_V_eq split: list.splits)

lemma SemLock_Acquire_P_other:
  "t \<noteq> v \<Longrightarrow> place_of (SemLock_Acquire_P v l fw s) t = place_of s t \<and>
     (\<not> asleep s t \<longrightarrow> \<not> asleep (SemLock_Acquire_P v l fw s) t)"
  by (auto simp: SemLock_Acquire_P_def Semaphore_P_def Sleep_def Let_def)

lemma SemLock_Acquire_other:
  "SemLock_Acquire v l fw s = Inr s' \<Longrightarrow> t \<noteq> v \<Longrightarrow>
   place_of s' t = place_of s t \<and> (\<not> asleep s t \<longrightarrow> \<not> asleep s' t)"
  using SemLock_Acquire_P_other[of t v l fw s]
  by (auto simp: SemLock_Acquire_def split: if_splits)

lemma SemLock_Release_other:
  "SemLock_Release v l s = Inr s' \<Longrightarrow>
   place_of s' t = place_of s t \<and> (\<not> asleep s t \<longrightarrow> \<not> asleep s' t)"
  by (auto simp: SemLock_Release_def Semaphore_V_eq Let_def split: if_splits list.splits)

lemma SemCondition_Wait_P_other:
  assumes w: "SemCondition_Wait_P v c l s = Inr s'" and t: "t \<noteq> v"
  shows "place_of s' t = place_of s t \<and> (\<not> asleep s t \<longrightarrow> \<not> asleep s' t)"
proof -
  obtain b sem sl where p: "Semaphore_P v (semCond (sem_conditions s c), asleep s) = (b, sem, sl)"
    by (cases "Semaphore_P v (semCond (sem_conditions s c), asleep s)") auto
  define s1 where "s1 = s\<lparr>sem_conditions := (sem_conditions s)(c := (sem_conditions s c)\<lparr>semCond := sem\<rparr>),
                       asleep := sl\<rparr>"
  have f: "place_of s1 = place_of s" "\<not> asleep s t \<longrightarrow> \<not> asleep s1 t"
    using Semaphore_P_other[OF p t] by (auto simp: s1_def)
  show ?thesis
  proof (cases b)
    case True
    with w p have "s' = s1\<lparr>place_of := (place_of s1)(t := place_of s1 t, v := InWait c l)\<rparr>"
      by (simp add: SemCondition_Wait_P_def Let_def s1_def)
    with f t show ?thesis by simp
  next
    case False
    with w p have "SemLock_Acquire v l True s1 = Inr s'"
      by (simp add: SemCondition_Wait_P_def Let_def s1_def)
    from SemLock_Acquire_other[OF this t] f show ?thesis by simp
  qed
qed

lemma SemCondition_Wait_other:
  assumes w: "SemCondition_Wait v c l s = Inr s'" and t: "t \<noteq> v"
  shows "place_of s' t = place_of s t \<and> (\<not> asleep s t \<longrightarrow> \<not> asleep s' t)"
proof -
  from w obtain s1 where r: "SemLock_Release v l s = Inr s1"
    and p: "SemCondition_Wait_P v c l s1 = Inr s'"
    by (auto simp: SemCondition_Wait_def split: if_splits sum.splits)
  from SemLock_Release_other[OF r, of t] SemCondition_Wait_P_other[OF p t]
  show ?thesis by simp
qed

lemma SemCondition_Signal_other:
  "SemCondition_Signal v c l s = Inr s' \<Longrightarrow>
   place_of s' t = place_of s t \<and> (\<not> asleep s t \<longrightarrow> \<not> asleep s' t)"
  by (auto simp: SemCondition_Signal_def Semaphore_V_eq Let_def split: if_splits list.splits)

lemma SemCondition_Broadcast_other:
  assumes b: "SemCondition_Broadcast v c l s = Inr s'"
  shows "place_of s' t = place_of s t \<and> (\<not> asleep s t \<longrightarrow> \<not> asleep s' t)"
proof -
  obtain sem sl where l: "Broadcast_loop (semCond (sem_conditions s c), asleep s) = (sem, sl)"
    by (cases "Broadcast_loop (semCond (sem_conditions s c), asleep s)") auto
  from Broadcast_loop_other[OF l, of t] have "\<not> asleep s t \<longrightarrow> \<not> sl t" by simp
  with b l show ?thesis
    by (auto simp: SemCondition_Broadcast_def Let_def split: if_splits)
qed

lemma sem_step_other:
  assumes st: "sem_step s ev = Inr s'" and ev: "ev = Call v r \<or> ev = Resume v" and t: "t \<noteq> v"
  shows "place_of s' t = place_of s t \<and> (\<not> asleep s t \<longrightarrow> \<not> asleep s' t)"
proof (cases ev)
  case (Call v' r')
  with ev have c: "ev = Call v r" by auto
  show ?thesis
  proof (cases r)
    case (SemP j)
    with c st P_call_other[OF t, of j s] show ?thesis by (auto split: if_splits)
  next
    case (SemV j)
    with c st V_call_other[of j s t] show ?thesis by (auto split: if_splits)
  next
    case (SemAcquire k)
    with c st have "SemLock_Acquire v k False s = Inr s'" by (auto split: if_splits)
    from SemLock_Acquire_other[OF this t] show ?thesis .
  next
    case (SemRelease k)
    with c st have "SemLock_Release v k s = Inr s'" by (auto split: if_splits)
    from SemLock_Release_other[OF this] show ?thesis .
  next
    case (SemWait c' k)
    with c st have "SemCondition_Wait v c' k s = Inr s'" by (auto split: if_splits)
    from SemCondition_Wait_other[OF this t] show ?thesis .
  next
    case (SemSignal c' k)
    with c st have "SemCondition_Signal v c' k s = Inr s'" by (auto split: if_splits)
    from SemCondition_Signal_other[OF this] show ?thesis .
  next
    case (SemBroadcast c' k)
    with c st have "SemCondition_Broadcast v c' k s = Inr s'" by (auto split: if_splits)
    from SemCondition_Broadcast_other[OF this] show ?thesis .
  qed
next
  case (Resume v')
  with ev have c: "ev = Resume v" by auto
  show ?thesis
  proof (cases "place_of s v")
    case Idle
    with c st show ?thesis by (simp split: if_splits)
  next
    case (InP j)
    with c st P_call_other[OF t, of j s] show ?thesis by (auto split: if_splits)
  next
    case (InAcquire k fw)
    with c st SemLock_Acquire_P_other[OF t, of k fw s] show ?thesis by (auto split: if_splits)
  next
    case (InWait c' k)
    with c st have "SemCondition_Wait_P v c' k s = Inr s'" by (auto split: if_splits)
    from SemCondition_Wait_P_other[OF this t] show ?thesis .
  qed
qed

text \<open>A step that is not a \<^verbatim>\<open>P\<close> on semaphore \<open>k\<close> does not lower its value.\<close>

lemma sem_step_value:
  assumes st: "sem_step s ev = Inr s'"
    and np: "case ev of Call v r \<Rightarrow> r \<noteq> SemP k | Resume v \<Rightarrow> place_of s v \<noteq> InP k"
  shows "sem_value (semaphores s k) \<le> sem_value (semaphores s' k)"
proof (cases ev)
  case (Call v r)
  show ?thesis
  proof (cases r)
    case (SemP j)
    with Call st np show ?thesis by (auto simp: P_call_def split: if_splits prod.splits)
  next
    case (SemV j)
    with Call st show ?thesis
      by (auto simp: V_call_def Semaphore_V_eq split: if_splits list.splits)
  next
    case (SemAcquire l)
    with Call st show ?thesis by (auto split: if_splits dest: SemLock_Acquire_semaphores)
  next
    case (SemRelease l)
    with Call st show ?thesis by (auto split: if_splits dest: SemLock_Release_semaphores)
  next
    case (SemWait c l)
    with Call st show ?thesis by (auto split: if_splits dest: SemCondition_Wait_semaphores)
  next
    case (SemSignal c l)
    with Call st show ?thesis by (auto split: if_splits dest: SemCondition_Signal_semaphores)
  next
    case (SemBroadcast c l)
    with Call st show ?thesis by (auto split: if_splits dest: SemCondition_Broadcast_semaphores)
  qed
next
  case (Resume v)
  show ?thesis
  proof (cases "place_of s v")
    case Idle
    with Resume st show ?thesis by (simp split: if_splits)
  next
    case (InP j)
    with Resume st np show ?thesis by (auto simp: P_call_def split: if_splits prod.splits)
  next
    case (InAcquire l fw)
    with Resume st show ?thesis by (auto split: if_splits)
  next
    case (InWait c l)
    with Resume st show ?thesis by (auto split: if_splits dest: SemCondition_Wait_P_semaphores)
  qed
qed

text \<open>
  A released waiter (runnable, inside \<^verbatim>\<open>P\<close> on \<open>k\<close>) stays so, and the value of \<open>k\<close> does
  not go down, along every schedule without a \<^verbatim>\<open>P\<close> on \<open>k\<close>.
\<close>

lemma released_waiter_keeps_its_token:
  "sem_exec evs s = Inr s' \<Longrightarrow> no_P k s evs \<Longrightarrow>
   place_of s th = InP k \<Longrightarrow> \<not> asleep s th \<Longrightarrow>
   place_of s' th = InP k \<and> \<not> asleep s' th \<and>
   sem_value (semaphores s k) \<le> sem_value (semaphores s' k)"
proof (induction evs arbitrary: s)
  case Nil
  then show ?case by simp
next
  case (Cons ev evs)
  from Cons.prems(1) obtain s1 where st: "sem_step s ev = Inr s1"
    and ex: "sem_exec evs s1 = Inr s'"
    by (auto split: sum.splits)
  from Cons.prems(2) st have np: "case ev of Call v r \<Rightarrow> r \<noteq> SemP k | Resume v \<Rightarrow> place_of s v \<noteq> InP k"
    and rest: "no_P k s1 evs"
    by simp_all
  have other: "\<exists>v r. (ev = Call v r \<or> ev = Resume v) \<and> th \<noteq> v"
  proof (cases ev)
    case (Call v r)
    with st have "place_of s v = Idle" by (auto split: if_splits)
    with Cons.prems(3) Call show ?thesis by auto
  next
    case (Resume v)
    with np Cons.prems(3) show ?thesis by auto
  qed
  then obtain v r where ev: "ev = Call v r \<or> ev = Resume v" and t: "th \<noteq> v" by blast
  from sem_step_other[OF st ev t] Cons.prems(3,4)
  have p1: "place_of s1 th = InP k" "\<not> asleep s1 th" by simp_all
  from sem_step_value[OF st np] have v1: "sem_value (semaphores s k) \<le> sem_value (semaphores s1 k)" .
  from Cons.IH[OF ex rest p1] v1 show ?case by simp
qed

lemma V_then_resume:
  assumes q: "sem_queue (semaphores s k) = th # q" and w: "place_of s th = InP k"
    and u: "place_of s u = Idle" "\<not> asleep s u" and v: "0 \<le> sem_value (semaphores s k)"
  shows "\<exists>s1. sem_step s (Call u (SemV k)) = Inr s1 \<and> \<not> asleep s1 th \<and>
           sem_value (semaphores s1 k) = sem_value (semaphores s k) + 1 \<and>
           sem_queue (semaphores s1 k) = q \<and>
           (\<forall>evs s2. sem_exec evs s1 = Inr s2 \<and> no_P k s1 evs \<longrightarrow>
              sem_value (semaphores s k) + 1 \<le> sem_value (semaphores s2 k) \<and>
              (\<exists>s3. sem_step s2 (Resume th) = Inr s3 \<and> place_of s3 th = Idle \<and>
                    \<not> asleep s3 th \<and>
                    sem_value (semaphores s3 k) = sem_value (semaphores s2 k) - 1))"
proof -
  from V_returns[OF u, of k] q obtain s1 where
    s1: "sem_step s (Call u (SemV k)) = Inr s1" "place_of s1 = place_of s" "\<not> asleep s1 th"
      "sem_value (semaphores s1 k) = sem_value (semaphores s k) + 1"
      "sem_queue (semaphores s1 k) = q"
    by auto
  have "sem_value (semaphores s k) + 1 \<le> sem_value (semaphores s2 k) \<and>
        (\<exists>s3. sem_step s2 (Resume th) = Inr s3 \<and> place_of s3 th = Idle \<and> \<not> asleep s3 th \<and>
              sem_value (semaphores s3 k) = sem_value (semaphores s2 k) - 1)"
    if r: "sem_exec evs s1 = Inr s2" "no_P k s1 evs" for evs s2
  proof -
    from released_waiter_keeps_its_token[OF r, of th] s1 w
    have k: "place_of s2 th = InP k" "\<not> asleep s2 th"
      "sem_value (semaphores s k) + 1 \<le> sem_value (semaphores s2 k)"
      by simp_all
    with v have "sem_value (semaphores s2 k) \<noteq> 0" by simp
    with woken_P_blocks_or_decrements[OF k(1,2)] k(3) show ?thesis by auto
  qed
  with s1 show ?thesis by blast
qed

text \<open>
  C3 (amended). \<^verbatim>\<open>Semaphore::V\<close> removes the waiter at the head of the queue, if any, and
  makes it runnable before it increments the value: at every point inside \<^verbatim>\<open>V\<close> where the
  value has changed the waiter is already off the queue and runnable, and there is a point
  where the waiter is runnable and the value is still the old one. The three statements are
  one atomic step, which always returns to the caller and raises no error.

  A released waiter finds the value incremented (positive), takes it and returns from
  \<^verbatim>\<open>P\<close>, whatever runs between the \<^verbatim>\<open>V\<close> and its resumption, as long as that is not a \<^verbatim>\<open>P\<close>
  on the same semaphore (a call of \<^verbatim>\<open>P\<close>, or another woken waiter resuming inside \<^verbatim>\<open>P\<close>)
  and the value was not negative. A waiter that resumes and finds the value 0 appends itself
  to the queue and blocks again. \<^verbatim>\<open>P\<close> never fails: called on a value of 0 it queues the
  caller and blocks, otherwise it decrements the value and returns.
\<close>

theorem semaphore_V_wakes_then_increments:
  "((\<forall>m \<in> set (V_steps (sem, sl)).
       sem_value (fst m) \<noteq> sem_value sem \<longrightarrow>
         sem_value (fst m) = sem_value sem + 1 \<and> sem_queue (fst m) = tl (sem_queue sem) \<and>
         (\<forall>th q. sem_queue sem = th # q \<longrightarrow> \<not> snd m th)) \<and>
    (\<forall>th q. sem_queue sem = th # q \<longrightarrow>
       (\<exists>m \<in> set (V_steps (sem, sl)).
          sem_value (fst m) = sem_value sem \<and> sem_queue (fst m) = q \<and> \<not> snd m th)) \<and>
    Semaphore_V (sem, sl) = last (V_steps (sem, sl))) \<and>
   (place_of s u = Idle \<and> \<not> asleep s u \<longrightarrow>
      (\<exists>s'. sem_step s (Call u (SemV k)) = Inr s' \<and>
           place_of s' = place_of s \<and> \<not> asleep s' u \<and>
           sem_value (semaphores s' k) = sem_value (semaphores s k) + 1 \<and>
           sem_queue (semaphores s' k) = tl (sem_queue (semaphores s k)) \<and>
           (\<forall>th q. sem_queue (semaphores s k) = th # q \<longrightarrow> \<not> asleep s' th))) \<and>
   (sem_queue (semaphores s k) = th # q \<and> place_of s th = InP k \<and>
    place_of s u = Idle \<and> \<not> asleep s u \<and> 0 \<le> sem_value (semaphores s k) \<longrightarrow>
      (\<exists>s1. sem_step s (Call u (SemV k)) = Inr s1 \<and> \<not> asleep s1 th \<and>
           sem_value (semaphores s1 k) = sem_value (semaphores s k) + 1 \<and>
           sem_queue (semaphores s1 k) = q \<and>
           (\<forall>evs s2. sem_exec evs s1 = Inr s2 \<and> no_P k s1 evs \<longrightarrow>
              sem_value (semaphores s k) + 1 \<le> sem_value (semaphores s2 k) \<and>
              (\<exists>s3. sem_step s2 (Resume th) = Inr s3 \<and> place_of s3 th = Idle \<and>
                    \<not> asleep s3 th \<and>
                    sem_value (semaphores s3 k) = sem_value (semaphores s2 k) - 1)))) \<and>
   (place_of z w = InP k \<and> \<not> asleep z w \<longrightarrow>
      (\<exists>z'. sem_step z (Resume w) = Inr z' \<and>
           (if sem_value (semaphores z k) = 0
            then asleep z' w \<and> place_of z' w = InP k \<and>
                 sem_queue (semaphores z' k) = sem_queue (semaphores z k) @ [w] \<and>
                 sem_value (semaphores z' k) = 0
            else \<not> asleep z' w \<and> place_of z' w = Idle \<and>
                 sem_queue (semaphores z' k) = sem_queue (semaphores z k) \<and>
                 sem_value (semaphores z' k) = sem_value (semaphores z k) - 1))) \<and>
   (sem_step s (Call u (SemV k)) \<noteq> Inl AssertionFailed \<and>
    sem_step s (Call u (SemP k)) \<noteq> Inl AssertionFailed \<and>
    (place_of z w = InP k \<longrightarrow> sem_step z (Resume w) \<noteq> Inl AssertionFailed)) \<and>
   (place_of s u = Idle \<and> \<not> asleep s u \<longrightarrow>
      (\<exists>s'. sem_step s (Call u (SemP k)) = Inr s' \<and>
           (if sem_value (semaphores s k) = 0
            then asleep s' u \<and> place_of s' u = InP k \<and>
                 sem_queue (semaphores s' k) = sem_queue (semaphores s k) @ [u] \<and>
                 sem_value (semaphores s' k) = 0
            else \<not> asleep s' u \<and> place_of s' u = Idle \<and>
                 sem_queue (semaphores s' k) = sem_queue (semaphores s k) \<and>
                 sem_value (semaphores s' k) = sem_value (semaphores s k) - 1)))"
proof -
  have a: "(\<forall>m \<in> set (V_steps (sem, sl)).
       sem_value (fst m) \<noteq> sem_value sem \<longrightarrow>
         sem_value (fst m) = sem_value sem + 1 \<and> sem_queue (fst m) = tl (sem_queue sem) \<and>
         (\<forall>th q. sem_queue sem = th # q \<longrightarrow> \<not> snd m th)) \<and>
    (\<forall>th q. sem_queue sem = th # q \<longrightarrow>
       (\<exists>m \<in> set (V_steps (sem, sl)).
          sem_value (fst m) = sem_value sem \<and> sem_queue (fst m) = q \<and> \<not> snd m th)) \<and>
    Semaphore_V (sem, sl) = last (V_steps (sem, sl))"
    using V_wakes_before_it_increments[of sem sl] by (simp add: Semaphore_V_def)
  have b: "place_of s u = Idle \<and> \<not> asleep s u \<longrightarrow>
      (\<exists>s'. sem_step s (Call u (SemV k)) = Inr s' \<and>
           place_of s' = place_of s \<and> \<not> asleep s' u \<and>
           sem_value (semaphores s' k) = sem_value (semaphores s k) + 1 \<and>
           sem_queue (semaphores s' k) = tl (sem_queue (semaphores s k)) \<and>
           (\<forall>th q. sem_queue (semaphores s k) = th # q \<longrightarrow> \<not> asleep s' th))"
    using V_returns[of s u k] by blast
  have c: "sem_queue (semaphores s k) = th # q \<and> place_of s th = InP k \<and>
    place_of s u = Idle \<and> \<not> asleep s u \<and> 0 \<le> sem_value (semaphores s k) \<longrightarrow>
      (\<exists>s1. sem_step s (Call u (SemV k)) = Inr s1 \<and> \<not> asleep s1 th \<and>
           sem_value (semaphores s1 k) = sem_value (semaphores s k) + 1 \<and>
           sem_queue (semaphores s1 k) = q \<and>
           (\<forall>evs s2. sem_exec evs s1 = Inr s2 \<and> no_P k s1 evs \<longrightarrow>
              sem_value (semaphores s k) + 1 \<le> sem_value (semaphores s2 k) \<and>
              (\<exists>s3. sem_step s2 (Resume th) = Inr s3 \<and> place_of s3 th = Idle \<and>
                    \<not> asleep s3 th \<and>
                    sem_value (semaphores s3 k) = sem_value (semaphores s2 k) - 1)))"
    using V_then_resume[of s k th q u] by blast
  have d: "place_of z w = InP k \<and> \<not> asleep z w \<longrightarrow>
      (\<exists>z'. sem_step z (Resume w) = Inr z' \<and>
           (if sem_value (semaphores z k) = 0
            then asleep z' w \<and> place_of z' w = InP k \<and>
                 sem_queue (semaphores z' k) = sem_queue (semaphores z k) @ [w] \<and>
                 sem_value (semaphores z' k) = 0
            else \<not> asleep z' w \<and> place_of z' w = Idle \<and>
                 sem_queue (semaphores z' k) = sem_queue (semaphores z k) \<and>
                 sem_value (semaphores z' k) = sem_value (semaphores z k) - 1))"
    using woken_P_blocks_or_decrements[of z w k] by blast
  have e: "sem_step s (Call u (SemV k)) \<noteq> Inl AssertionFailed \<and>
    sem_step s (Call u (SemP k)) \<noteq> Inl AssertionFailed \<and>
    (place_of z w = InP k \<longrightarrow> sem_step z (Resume w) \<noteq> Inl AssertionFailed)"
    using P_V_never_abort[of s u k] P_V_never_abort[of z w k] by blast
  have f: "place_of s u = Idle \<and> \<not> asleep s u \<longrightarrow>
      (\<exists>s'. sem_step s (Call u (SemP k)) = Inr s' \<and>
           (if sem_value (semaphores s k) = 0
            then asleep s' u \<and> place_of s' u = InP k \<and>
                 sem_queue (semaphores s' k) = sem_queue (semaphores s k) @ [u] \<and>
                 sem_value (semaphores s' k) = 0
            else \<not> asleep s' u \<and> place_of s' u = Idle \<and>
                 sem_queue (semaphores s' k) = sem_queue (semaphores s k) \<and>
                 sem_value (semaphores s' k) = sem_value (semaphores s k) - 1))"
    using P_blocks_or_decrements[of s u k] by blast
  show ?thesis
    by (rule conjI[OF a conjI[OF b conjI[OF c conjI[OF d conjI[OF e f]]]]])
qed

text \<open>
  An instance: thread 1 is blocked in \<^verbatim>\<open>P\<close> on semaphore 0 and thread 2 calls \<^verbatim>\<open>V\<close>.
  Thread 2 then takes and releases a lock and thread 3 calls \<^verbatim>\<open>V\<close> on another semaphore
  before thread 1 runs; thread 1 resumes, takes the value and returns. In the other run
  thread 3 calls \<^verbatim>\<open>P\<close> first, and thread 1, resuming on the value 0, queues again.
\<close>

theorem semaphore_V_wakes_then_increments_witness:
  "(\<exists>m \<in> set (V_steps (semaphores one_waiter 0, asleep one_waiter)).
      sem_value (fst m) = 0 \<and> sem_queue (fst m) = [] \<and> \<not> snd m 1) \<and>
   (\<exists>s1 s2 s3. sem_step one_waiter (Call 2 (SemV 0)) = Inr s1 \<and> \<not> asleep s1 1 \<and>
       sem_value (semaphores s1 0) = 1 \<and> sem_queue (semaphores s1 0) = [] \<and>
       sem_exec [Call 2 (SemAcquire 0), Call 3 (SemV 1), Call 2 (SemRelease 0)] s1 = Inr s2 \<and>
       sem_step s2 (Resume 1) = Inr s3 \<and> place_of s3 1 = Idle \<and> \<not> asleep s3 1 \<and>
       sem_value (semaphores s3 0) = 0) \<and>
   (\<exists>z z'. sem_exec [Call 2 (SemV 0), Call 3 (SemP 0)] one_waiter = Inr z \<and>
       sem_step z (Resume 1) = Inr z' \<and> asleep z' 1 \<and> place_of z' 1 = InP 0 \<and>
       sem_queue (semaphores z' 0) = [1]) \<and>
   (\<exists>s'. sem_step one_waiter (Call 2 (SemP 0)) = Inr s' \<and> asleep s' 2 \<and>
       place_of s' 2 = InP 0 \<and> sem_queue (semaphores s' 0) = [1, 2])"
proof -
  have h: "sem_queue (semaphores one_waiter 0) = 1 # []" "place_of one_waiter 1 = InP 0"
    "place_of one_waiter 2 = Idle" "\<not> asleep one_waiter 2"
    "sem_value (semaphores one_waiter 0) = 0"
    by (simp_all add: one_waiter_def sem_model queue_model)
  have r: "\<exists>s1 s2. sem_step one_waiter (Call 2 (SemV 0)) = Inr s1 \<and>
       sem_exec [Call 2 (SemAcquire 0), Call 3 (SemV 1), Call 2 (SemRelease 0)] s1 = Inr s2 \<and>
       no_P 0 s1 [Call 2 (SemAcquire 0), Call 3 (SemV 1), Call 2 (SemRelease 0)] \<and>
       sem_value (semaphores s2 0) = 1"
    by (simp add: one_waiter_def sem_model queue_model)
  then obtain s1 s2 where s1: "sem_step one_waiter (Call 2 (SemV 0)) = Inr s1"
    and s2: "sem_exec [Call 2 (SemAcquire 0), Call 3 (SemV 1), Call 2 (SemRelease 0)] s1 = Inr s2"
      "no_P 0 s1 [Call 2 (SemAcquire 0), Call 3 (SemV 1), Call 2 (SemRelease 0)]"
    and v2: "sem_value (semaphores s2 0) = 1"
    by blast
  have g: "\<exists>z. sem_exec [Call 2 (SemV 0), Call 3 (SemP 0)] one_waiter = Inr z \<and>
       place_of z 1 = InP 0 \<and> \<not> asleep z 1 \<and> sem_value (semaphores z 0) = 0 \<and>
       sem_queue (semaphores z 0) = []"
    by (simp add: one_waiter_def sem_model queue_model)
  then obtain z where z: "sem_exec [Call 2 (SemV 0), Call 3 (SemP 0)] one_waiter = Inr z"
    "place_of z 1 = InP 0" "\<not> asleep z 1" "sem_value (semaphores z 0) = 0"
    "sem_queue (semaphores z 0) = []"
    by blast
  note t = semaphore_V_wakes_then_increments
    [of "semaphores one_waiter 0" "asleep one_waiter" one_waiter 2 0 1 "[]" z 1]
  from t h have c1: "\<exists>m \<in> set (V_steps (semaphores one_waiter 0, asleep one_waiter)).
      sem_value (fst m) = 0 \<and> sem_queue (fst m) = [] \<and> \<not> snd m 1"
    by (simp del: sem_step.simps)
  from t h s1 have p1: "\<not> asleep s1 1 \<and>
    sem_value (semaphores s1 0) = 1 \<and> sem_queue (semaphores s1 0) = [] \<and>
    (\<forall>evs s2. sem_exec evs s1 = Inr s2 \<and> no_P 0 s1 evs \<longrightarrow>
              1 \<le> sem_value (semaphores s2 0) \<and>
              (\<exists>s3. sem_step s2 (Resume 1) = Inr s3 \<and> place_of s3 1 = Idle \<and>
                    \<not> asleep s3 1 \<and>
                    sem_value (semaphores s3 0) = sem_value (semaphores s2 0) - 1))"
    by (simp del: sem_step.simps sem_exec.simps no_P.simps)
  with s2 obtain s3 where s3: "sem_step s2 (Resume 1) = Inr s3" "place_of s3 1 = Idle"
    "\<not> asleep s3 1" "sem_value (semaphores s3 0) = sem_value (semaphores s2 0) - 1"
    by blast
  from s1 p1 s2 s3 v2 have c2: "\<exists>s1 s2 s3. sem_step one_waiter (Call 2 (SemV 0)) = Inr s1 \<and> \<not> asleep s1 1 \<and>
       sem_value (semaphores s1 0) = 1 \<and> sem_queue (semaphores s1 0) = [] \<and>
       sem_exec [Call 2 (SemAcquire 0), Call 3 (SemV 1), Call 2 (SemRelease 0)] s1 = Inr s2 \<and>
       sem_step s2 (Resume 1) = Inr s3 \<and> place_of s3 1 = Idle \<and> \<not> asleep s3 1 \<and>
       sem_value (semaphores s3 0) = 0"
    by (simp del: sem_step.simps sem_exec.simps)
  from t[THEN conjunct2, THEN conjunct2, THEN conjunct2, THEN conjunct1] z
  have "\<exists>z'. sem_step z (Resume 1) = Inr z' \<and> asleep z' 1 \<and> place_of z' 1 = InP 0 \<and>
       sem_queue (semaphores z' 0) = [1]"
    by (auto simp del: sem_step.simps)
  with z(1) have c3: "\<exists>z z'. sem_exec [Call 2 (SemV 0), Call 3 (SemP 0)] one_waiter = Inr z \<and>
       sem_step z (Resume 1) = Inr z' \<and> asleep z' 1 \<and> place_of z' 1 = InP 0 \<and>
       sem_queue (semaphores z' 0) = [1]"
    by blast
  from t[THEN conjunct2, THEN conjunct2, THEN conjunct2, THEN conjunct2, THEN conjunct2] h
  have c4: "\<exists>s'. sem_step one_waiter (Call 2 (SemP 0)) = Inr s' \<and> asleep s' 2 \<and>
       place_of s' 2 = InP 0 \<and> sem_queue (semaphores s' 0) = [1, 2]"
    by (auto simp del: sem_step.simps)
  show ?thesis
    by (rule conjI[OF c1 conjI[OF c2 conjI[OF c3 c4]]])
qed

subsection \<open>The lock of the wait-queue Condition\<close>

lemma Condition_check_binding:
  "Condition_check t c l s = Inr s' \<Longrightarrow>
   firstLock (conditions s' c) = Some l \<and>
   (firstLock (conditions s c) = None \<or> firstLock (conditions s c) = Some l) \<and>
   (\<forall>c'. c' \<noteq> c \<longrightarrow> conditions s' c' = conditions s c') \<and>
   cond_queue (conditions s' c) = cond_queue (conditions s c)"
  by (auto simp: Condition_check_def Let_def split: if_splits)

lemma Condition_check_rejects:
  "firstLock (conditions s c) = Some l \<Longrightarrow> l' \<noteq> l \<Longrightarrow>
   Condition_check t c l' s = Inl AssertionFailed"
  by (simp add: Condition_check_def Let_def)

lemma Condition_check_keeps:
  assumes b: "firstLock (conditions s c) = Some l" and k: "Condition_check t c' l' s = Inr s'"
  shows "firstLock (conditions s' c) = Some l"
proof (cases "c' = c")
  case True
  with Condition_check_binding[OF k] b show ?thesis by auto
next
  case False
  with Condition_check_binding[OF k] b show ?thesis by auto
qed

lemma Acquire_loop_conditions [simp]: "conditions (Acquire_loop t l fw s) = conditions s"
  by (simp add: Acquire_loop_def Let_def)

lemma Lock_Acquire_conditions: "Lock_Acquire t l fw s = Inr s' \<Longrightarrow> conditions s' = conditions s"
  by (auto simp: Lock_Acquire_def split: if_splits)

lemma Lock_Release_conditions: "Lock_Release t l s = Inr s' \<Longrightarrow> conditions s' = conditions s"
  by (auto simp: Lock_Release_def Let_def split: if_splits prod.splits option.splits)

lemma Condition_Wait_keeps:
  assumes b: "firstLock (conditions s c) = Some l" and w: "Condition_Wait t c' l' s = Inr s'"
  shows "firstLock (conditions s' c) = Some l"
proof -
  from Condition_Wait_Inr[OF w] obtain s1 s3 where k: "Condition_check t c' l' s = Inr s1"
    and r: "Lock_Release t l' (s1\<lparr>conditions := (conditions s1)
        (c' := (conditions s1 c')\<lparr>cond_queue := Append t (cond_queue (conditions s1 c'))\<rparr>)\<rparr>) = Inr s3"
    and e: "s' = s3\<lparr>asleep := Sleep t (asleep s3), place_of := (place_of s3)(t := InWait c' l')\<rparr>"
    by blast
  from Condition_check_keeps[OF b k] have "firstLock (conditions s1 c) = Some l" .
  with Lock_Release_conditions[OF r] e show ?thesis by auto
qed

lemma Condition_Signal_keeps:
  assumes b: "firstLock (conditions s c) = Some l" and w: "Condition_Signal t c' l' s = Inr s'"
  shows "firstLock (conditions s' c) = Some l"
proof -
  from w obtain s1 where k: "Condition_check t c' l' s = Inr s1"
    by (auto simp: Condition_Signal_def split: sum.splits)
  from Condition_check_keeps[OF b k] have "firstLock (conditions s1 c) = Some l" .
  with w k show ?thesis
    by (auto simp: Condition_Signal_def Let_def split: prod.splits option.splits)
qed

lemma Condition_Broadcast_keeps:
  assumes b: "firstLock (conditions s c) = Some l" and w: "Condition_Broadcast t c' l' s = Inr s'"
  shows "firstLock (conditions s' c) = Some l"
proof -
  from w obtain s1 where k: "Condition_check t c' l' s = Inr s1"
    by (auto simp: Condition_Broadcast_def split: sum.splits)
  from Condition_check_keeps[OF b k] have "firstLock (conditions s1 c) = Some l" .
  with w k show ?thesis
    by (auto simp: Condition_Broadcast_def Let_def split: prod.splits)
qed

lemma step_keeps_binding:
  assumes b: "firstLock (conditions s c) = Some l" and st: "step s ev = Inr s'"
  shows "firstLock (conditions s' c) = Some l"
proof (cases ev)
  case (Call t r)
  show ?thesis
  proof (cases r)
    case (Acquire k)
    with Call st b show ?thesis by (auto split: if_splits dest: Lock_Acquire_conditions)
  next
    case (Release k)
    with Call st b show ?thesis by (auto split: if_splits dest: Lock_Release_conditions)
  next
    case (Wait c' k)
    with Call st have "Condition_Wait t c' k s = Inr s'" by (auto split: if_splits)
    with b show ?thesis by (rule Condition_Wait_keeps)
  next
    case (Signal c' k)
    with Call st have "Condition_Signal t c' k s = Inr s'" by (auto split: if_splits)
    with b show ?thesis by (rule Condition_Signal_keeps)
  next
    case (Broadcast c' k)
    with Call st have "Condition_Broadcast t c' k s = Inr s'" by (auto split: if_splits)
    with b show ?thesis by (rule Condition_Broadcast_keeps)
  qed
next
  case (Resume t)
  with st b show ?thesis
    by (auto split: if_splits place.splits dest: Lock_Acquire_conditions)
qed

lemma exec_keeps_binding:
  "firstLock (conditions s c) = Some l \<Longrightarrow> exec evs s = Inr s' \<Longrightarrow>
   firstLock (conditions s' c) = Some l"
proof (induction evs arbitrary: s)
  case Nil
  then show ?case by simp
next
  case (Cons e es)
  then show ?case by (auto split: sum.splits dest: step_keeps_binding)
qed

lemma step_first_use_binds:
  assumes r: "r = Wait c l \<or> r = Signal c l \<or> r = Broadcast c l"
    and st: "step s (Call t r) = Inr s'"
  shows "firstLock (conditions s' c) = Some l"
proof -
  from r st have "\<exists>s1. Condition_check t c l s = Inr s1"
    by (auto simp: Condition_Wait_def Condition_Signal_def Condition_Broadcast_def
        split: if_splits sum.splits)
  then obtain s1 where k: "Condition_check t c l s = Inr s1" ..
  from Condition_check_binding[OF k] have b: "firstLock (conditions s1 c) = Some l" by simp
  from r show ?thesis
  proof (elim disjE)
    assume "r = Wait c l"
    with st have w: "Condition_Wait t c l s = Inr s'" by (auto split: if_splits)
    from Condition_Wait_Inr[OF w] k obtain s3 where
      rl: "Lock_Release t l (s1\<lparr>conditions := (conditions s1)
        (c := (conditions s1 c)\<lparr>cond_queue := Append t (cond_queue (conditions s1 c))\<rparr>)\<rparr>) = Inr s3"
      and e: "s' = s3\<lparr>asleep := Sleep t (asleep s3), place_of := (place_of s3)(t := InWait c l)\<rparr>"
      by auto
    from Lock_Release_conditions[OF rl] e b show ?thesis by auto
  next
    assume "r = Signal c l"
    with st have "Condition_Signal t c l s = Inr s'" by (auto split: if_splits)
    with k b show ?thesis
      by (auto simp: Condition_Signal_def Let_def split: prod.splits option.splits)
  next
    assume "r = Broadcast c l"
    with st have "Condition_Broadcast t c l s = Inr s'" by (auto split: if_splits)
    with k b show ?thesis
      by (auto simp: Condition_Broadcast_def Let_def split: prod.splits)
  qed
qed

lemma step_other_lock_rejected:
  assumes b: "firstLock (conditions s c) = Some l" and d: "l' \<noteq> l"
    and r: "r = Wait c l' \<or> r = Signal c l' \<or> r = Broadcast c l'"
    and u: "place_of s t = Idle" "\<not> asleep s t"
  shows "step s (Call t r) = Inl AssertionFailed"
  using r u Condition_check_rejects[OF b d, of t]
  by (auto simp: Condition_Wait_def Condition_Signal_def Condition_Broadcast_def)

text \<open>
  X1. The wait-queue \<^verbatim>\<open>Condition\<close> enforces its lock. The lock passed to the first
  \<^verbatim>\<open>Wait\<close>, \<^verbatim>\<open>Signal\<close> or \<^verbatim>\<open>Broadcast\<close> that succeeds becomes \<^verbatim>\<open>firstLock\<close>; once set,
  \<^verbatim>\<open>firstLock\<close> is the same after every schedule that runs without a failed assertion;
  and each of the three operations, called by a runnable thread with another lock, stops
  at the assertion.
\<close>

theorem condition_binding_enforced:
  "(firstLock (conditions s c) = None \<and>
    (r = Wait c l \<or> r = Signal c l \<or> r = Broadcast c l) \<and>
    step s (Call t r) = Inr s' \<longrightarrow> firstLock (conditions s' c) = Some l) \<and>
   (firstLock (conditions s c) = Some l \<and> exec evs s = Inr s'' \<longrightarrow>
      firstLock (conditions s'' c) = Some l) \<and>
   (firstLock (conditions s c) = Some l \<and> l' \<noteq> l \<and>
    (r' = Wait c l' \<or> r' = Signal c l' \<or> r' = Broadcast c l') \<and>
    place_of s t = Idle \<and> \<not> asleep s t \<longrightarrow> step s (Call t r') = Inl AssertionFailed)"
  using step_first_use_binds[of r c l s t s'] exec_keeps_binding[of s c l evs s'']
    step_other_lock_rejected[of s c l l' r' t]
  by blast

subsection \<open>Broadcast on the wait-queue Condition\<close>

lemma wake_all_eq: "wake_all q sl = ([], (\<lambda>t. if t \<in> set q then False else sl t))"
  by (induction q arbitrary: sl) (auto simp: ReadyToRun_def fun_eq_iff)

lemma Condition_check_frame2:
  "Condition_check t c l s = Inr s' \<Longrightarrow>
   locks s' = locks s \<and> asleep s' = asleep s \<and> place_of s' = place_of s \<and>
   cond_queue (conditions s' c) = cond_queue (conditions s c)"
  by (auto simp: Condition_check_def Let_def split: if_splits)

lemma Broadcast_wakes_all:
  assumes st: "step s (Call t (Broadcast c l)) = Inr s'"
  shows "cond_queue (conditions s' c) = [] \<and>
         (\<forall>th. th \<in> set (cond_queue (conditions s c)) \<longrightarrow> \<not> asleep s' th) \<and>
         place_of s' = place_of s \<and> locks s' = locks s"
proof -
  from st have b: "Condition_Broadcast t c l s = Inr s'" by (auto split: if_splits)
  then obtain s1 where k: "Condition_check t c l s = Inr s1"
    by (auto simp: Condition_Broadcast_def split: sum.splits)
  from b k have e: "s' = s1\<lparr>conditions := (conditions s1)(c := (conditions s1 c)\<lparr>cond_queue := []\<rparr>),
       asleep := (\<lambda>t. if t \<in> set (cond_queue (conditions s1 c)) then False else asleep s1 t)\<rparr>"
    by (simp add: Condition_Broadcast_def Let_def wake_all_eq)
  with Condition_check_frame2[OF k] show ?thesis by simp
qed

lemma woken_waiter_goes_for_the_lock:
  assumes p: "place_of s th = InWait c l \<or> place_of s th = InAcquire l True"
    and st: "step s (Resume th) = Inr s'"
  shows "conditions s' = conditions s \<and>
         (if mutex (locks s l) = 0
          then place_of s' th = InAcquire l True \<and> asleep s' th \<and>
               lock_queue (locks s' l) = lock_queue (locks s l) @ [th]
          else place_of s' th = Idle \<and> acquired s' l th)"
proof -
  from p st have "s' = Acquire_loop th l True s"
    by (auto simp: Lock_Acquire_def split: if_splits)
  then show ?thesis by (simp add: Acquire_loop_def Let_def Append_def Sleep_def)
qed

text \<open>
  X2. On the wait-queue \<^verbatim>\<open>Condition\<close>, a \<^verbatim>\<open>Broadcast\<close> that succeeds empties the queue
  and makes every thread that was on it runnable. A woken waiter, when it runs, either
  finds the lock free, takes it and returns from \<^verbatim>\<open>Wait\<close>, or queues on the lock and
  sleeps there; it does not change any condition's queue.
\<close>

theorem queue_broadcast_wakes_all:
  "(step s (Call t (Broadcast c l)) = Inr s' \<longrightarrow>
      cond_queue (conditions s' c) = [] \<and>
      (\<forall>th. th \<in> set (cond_queue (conditions s c)) \<longrightarrow> \<not> asleep s' th) \<and>
      place_of s' = place_of s \<and> locks s' = locks s) \<and>
   ((place_of z th = InWait c l \<or> place_of z th = InAcquire l True) \<and>
    step z (Resume th) = Inr z' \<longrightarrow>
      conditions z' = conditions z \<and>
      (if mutex (locks z l) = 0
       then place_of z' th = InAcquire l True \<and> asleep z' th \<and>
            lock_queue (locks z' l) = lock_queue (locks z l) @ [th]
       else place_of z' th = Idle \<and> acquired z' l th))"
  using Broadcast_wakes_all[of s t c l s'] woken_waiter_goes_for_the_lock[of z th c l z']
  by blast

theorem condition_binding_enforced_witness:
  "firstLock (conditions system_new 0) = None \<and>
   firstLock (conditions one_bound 0) = Some 0 \<and>
   step one_bound (Call 2 (Signal 0 1)) = Inl AssertionFailed \<and>
   (\<exists>s'. exec [Call 2 (Release 1)] one_bound = Inr s' \<and> firstLock (conditions s' 0) = Some 0)"
proof -
  have h: "firstLock (conditions one_bound 0) = Some 0" "place_of one_bound 2 = Idle"
    "\<not> asleep one_bound 2" "firstLock (conditions system_new 0) = None"
    by (simp_all add: one_bound_def lock_model queue_model)
  have "\<exists>s'. exec [Call 2 (Release 1)] one_bound = Inr s'"
    by (simp add: one_bound_def lock_model queue_model)
  then obtain s' where e: "exec [Call 2 (Release 1)] one_bound = Inr s'" ..
  from condition_binding_enforced
    [where s = one_bound and c = 0 and l = 0 and l' = 1 and r' = "Signal 0 1" and t = 2
       and evs = "[Call 2 (Release 1)]" and s'' = s'] h e
  show ?thesis by (simp del: step.simps exec.simps)
qed

theorem queue_broadcast_wakes_all_witness:
  "cond_queue (conditions two_waiters 0) = [1, 2] \<and>
   (\<exists>s'. step two_waiters (Call 3 (Broadcast 0 0)) = Inr s' \<and>
      cond_queue (conditions s' 0) = [] \<and> \<not> asleep s' 1 \<and> \<not> asleep s' 2)"
proof -
  have q: "cond_queue (conditions two_waiters 0) = [1, 2]"
    by (simp add: two_waiters_def lock_model queue_model)
  have "\<exists>s'. step two_waiters (Call 3 (Broadcast 0 0)) = Inr s'"
    by (simp add: two_waiters_def lock_model queue_model)
  then obtain s' where e: "step two_waiters (Call 3 (Broadcast 0 0)) = Inr s'" ..
  from queue_broadcast_wakes_all
    [where s = two_waiters and t = 3 and c = 0 and l = 0 and s' = s',
      THEN conjunct1, THEN mp, OF e] q
  have "cond_queue (conditions s' 0) = [] \<and> \<not> asleep s' 1 \<and> \<not> asleep s' 2" by simp
  with e q show ?thesis by blast
qed

section \<open>Properties of Elevator and Building\<close>

subsection \<open>The constructor\<close>

lemma clear_from_eq:
  "clear_from i n a = (\<lambda>j. if i \<le> j \<and> j \<le> n then 0 else a j)"
proof (induction i n a rule: clear_from.induct)
  case (1 i n a)
  show ?case
  proof (cases "i \<le> n")
    case True
    then have "clear_from i n a = clear_from (i + 1) n (a(i := 0))"
      by (subst clear_from.simps) simp
    also have "\<dots> = (\<lambda>j. if i + 1 \<le> j \<and> j \<le> n then 0 else (a(i := 0)) j)"
      by (rule "1.IH"[OF True])
    also have "\<dots> = (\<lambda>j. if i \<le> j \<and> j \<le> n then 0 else a j)"
      using True by (auto simp: fun_eq_iff)
    finally show ?thesis .
  next
    case False
    then show ?thesis by (subst clear_from.simps) (auto simp: fun_eq_iff)
  qed
qed

text \<open>
  C7 (as the code has it). A freshly constructed elevator stands at floor 1 with no
  rider inside, and its direction field holds 0, the code of DOWN; every inside button
  of the floors \<open>1..numFloors\<close> is released.
\<close>

theorem fresh_elevator_state:
  "currentfloor (Elevator_new numFloors myID mem) = 1 \<and>
   dir (Elevator_new numFloors myID mem) = DOWN \<and>
   occupancy (Elevator_new numFloors myID mem) = 0 \<and>
   floorCalled (Elevator_new numFloors myID mem) =
     (\<lambda>j. if 1 \<le> j \<and> j \<le> numFloors then 0 else mem j)"
  by (simp add: Elevator_new_def DOWN_def clear_from_eq)

text \<open>
  C7 as stated (direction up) fails: the fresh elevator of a five-floor building has
  direction DOWN, not UP.
\<close>

theorem fresh_elevator_not_up:
  "dir (Elevator_new 5 0 zero_mem) = DOWN \<and> dir (Elevator_new 5 0 zero_mem) \<noteq> UP"
  by (simp add: Elevator_new_def DOWN_def UP_def)

subsection \<open>Enter\<close>

text \<open>
  C9. Every call to \<^verbatim>\<open>Enter\<close> first takes one off \<^verbatim>\<open>riderRequest\<close> and asserts that the
  new value is not negative: the call aborts exactly when the decremented counter is
  below zero. Otherwise admission is decided by \<^verbatim>\<open>occupancy < capacity\<close>, and in the
  admitting branch and in the rejecting branch alike the counter ends one lower than it
  was.
\<close>

theorem enter_decrements_request:
  "(riderRequest (building w) - 1 < 0 \<longrightarrow> Enter w = Inl AssertionFailed) \<and>
   (0 \<le> riderRequest (building w) - 1 \<longrightarrow>
      (\<exists>w'. Enter w = Inr (occupancy (elev w) < capacity w, w') \<and>
            riderRequest (building w') = riderRequest (building w) - 1))"
  by (simp add: Enter_def Let_def emit_def)

theorem enter_decrements_request_witness:
  "Enter (world_new 5 2 zero_mem) = Inl AssertionFailed \<and>
   (\<exists>w'. Enter full_car = Inr (False, w') \<and> riderRequest (building w') = 0) \<and>
   (\<exists>w'. Enter free_car_up = Inr (True, w') \<and> riderRequest (building w') = 0)"
  using enter_decrements_request [of "world_new 5 2 zero_mem"]
    enter_decrements_request [of full_car] enter_decrements_request [of free_car_up]
  by (simp add: world_new_def Building_new_def Elevator_new_def full_car_def full_car_up_def
      free_car_up_def)

text \<open>
  C6 (amended). An \<^verbatim>\<open>Enter\<close> made when the occupancy equals the capacity, with at least
  one rider request outstanding, returns false and leaves the occupancy as it was.
\<close>

theorem enter_full:
  "occupancy (elev w) = capacity w \<Longrightarrow> 1 \<le> riderRequest (building w) \<Longrightarrow>
   \<exists>w'. Enter w = Inr (False, w') \<and> occupancy (elev w') = occupancy (elev w)"
  by (simp add: Enter_def Let_def emit_def)

theorem enter_full_witness:
  "\<exists>w'. Enter full_car = Inr (False, w') \<and> occupancy (elev w') = occupancy (elev full_car)"
  using enter_full [of full_car]
  by (simp add: world_new_def Building_new_def Elevator_new_def full_car_def)

text \<open>
  C6 as stated fails when no request is outstanding: after one call and one admitted
  rider the car of capacity 1 is full and the counter is back at 0, and the next
  \<^verbatim>\<open>Enter\<close> stops at the assertion instead of returning false.
\<close>

theorem enter_full_aborts:
  "(case run [CCallUp 1, CEnter] (world_new 5 1 zero_mem) of
      Inl e \<Rightarrow> False
    | Inr w \<Rightarrow> occupancy (elev w) = capacity w \<and> Enter w = Inl AssertionFailed)"
  by (simp add: world_new_def Building_new_def Elevator_new_def CallUp_def Enter_def
      Let_def emit_def)

text \<open>
  C10. In a car travelling up (\<open>dir = 1\<close>) with a request outstanding: when the car is
  full, \<^verbatim>\<open>Enter\<close> returns false, clears the down-call flag of the current floor, leaves
  every up-call flag as it was and completes the up entry barrier of the floor (then
  yields); when there is room, \<^verbatim>\<open>Enter\<close> returns true and clears the up-call flag of the
  current floor, leaving the down-call flags as they were.
\<close>

theorem enter_full_up_frame:
  "dir (elev w) = 1 \<Longrightarrow> 1 \<le> riderRequest (building w) \<Longrightarrow>
   (\<not> occupancy (elev w) < capacity w \<longrightarrow>
      (\<exists>w'. Enter w = Inr (False, w') \<and>
         floorCalledDown (building w') =
           (floorCalledDown (building w))(currentfloor (elev w) := 0) \<and>
         floorCalledUp (building w') = floorCalledUp (building w) \<and>
         trace w' = trace w @ [Debug (MsgFull (elevatorID (elev w)) (currentfloor (elev w))),
                               BarComplete (EnterBarUp (currentfloor (elev w))),
                               ThreadYield])) \<and>
   (occupancy (elev w) < capacity w \<longrightarrow>
      (\<exists>w'. Enter w = Inr (True, w') \<and>
         floorCalledUp (building w') =
           (floorCalledUp (building w))(currentfloor (elev w) := 0) \<and>
         floorCalledDown (building w') = floorCalledDown (building w) \<and>
         trace w' = trace w @ [Debug (MsgEnter (elevatorID (elev w)) (currentfloor (elev w))),
                               BarComplete (EnterBarUp (currentfloor (elev w)))]))"
  by (simp add: Enter_def Let_def emit_def)

theorem enter_full_up_frame_witness:
  "(\<exists>w'. Enter full_car_up = Inr (False, w') \<and>
         floorCalledDown (building w') 1 = 0 \<and>
         floorCalledUp (building w') = floorCalledUp (building full_car_up) \<and>
         trace w' = [Debug (MsgFull 0 1), BarComplete (EnterBarUp 1), ThreadYield]) \<and>
   (\<exists>w'. Enter free_car_up = Inr (True, w') \<and>
         floorCalledUp (building w') 1 = 0 \<and>
         floorCalledDown (building w') = floorCalledDown (building free_car_up) \<and>
         trace w' = [Debug (MsgEnter 0 1), BarComplete (EnterBarUp 1)])"
  using enter_full_up_frame [of full_car_up] enter_full_up_frame [of free_car_up]
  by (fastforce simp: world_new_def Building_new_def Elevator_new_def full_car_def
      full_car_up_def free_car_up_def)

subsection \<open>Occupancy along a sequence of calls\<close>

lemma do_call_occ_ok:
  assumes "occ_ok w" and "c = CExit \<longrightarrow> 0 < occupancy (elev w)" and "do_call c w = Inr w'"
  shows "occ_ok w' \<and> capacity w' = capacity w"
proof (cases c)
  case CEnter
  then show ?thesis using assms
    by (auto simp: occ_ok_def Enter_def Let_def emit_def split: if_splits)
next
  case CExit
  then show ?thesis using assms by (auto simp: occ_ok_def Exit_def Let_def emit_def)
next
  case (CRequestFloor f)
  then show ?thesis using assms by (auto simp: occ_ok_def RequestFloor_def emit_def)
next
  case (CCallUp f)
  then show ?thesis using assms by (auto simp: occ_ok_def CallUp_def Let_def emit_def)
next
  case (CCallDown f)
  then show ?thesis using assms by (auto simp: occ_ok_def CallDown_def Let_def emit_def)
qed

lemma run_occ_ok:
  "occ_ok w \<Longrightarrow> exits_matched cs w \<Longrightarrow> run cs w = Inr w' \<Longrightarrow>
   occ_ok w' \<and> capacity w' = capacity w"
proof (induction cs arbitrary: w)
  case Nil
  then show ?case by simp
next
  case (Cons c cs)
  from Cons.prems(3) obtain w1 where s: "do_call c w = Inr w1" and r: "run cs w1 = Inr w'"
    by (auto split: sum.splits)
  from Cons.prems(2) have g: "c = CExit \<longrightarrow> 0 < occupancy (elev w)"
    by (auto split: if_splits)
  from Cons.prems(2) s have m: "exits_matched cs w1" by simp
  from do_call_occ_ok[OF Cons.prems(1) g s]
  have "occ_ok w1" "capacity w1 = capacity w" by simp_all
  with Cons.IH[OF _ m r] show ?case by simp
qed

lemma exits_matched_take: "exits_matched cs w \<Longrightarrow> exits_matched (take n cs) w"
proof (induction cs arbitrary: w n)
  case Nil
  then show ?case by simp
next
  case (Cons c cs)
  show ?case
  proof (cases n)
    case 0
    then show ?thesis by simp
  next
    case (Suc m)
    with Cons show ?thesis by (auto split: sum.splits)
  qed
qed

text \<open>
  C5 (amended). For an elevator of non-negative capacity that starts empty, and every
  finite sequence of rider calls in which each \<^verbatim>\<open>Exit\<close> is made with a rider inside
  (occupancy positive at the call), the occupancy lies within \<open>[0, capacity]\<close> after
  every call: after each prefix of the sequence that runs without a failed assertion.
\<close>

theorem occupancy_within_capacity:
  assumes "occupancy (elev w) = 0" and "0 \<le> capacity w" and "exits_matched cs w"
    and "run (take n cs) w = Inr w'"
  shows "0 \<le> occupancy (elev w') \<and> occupancy (elev w') \<le> capacity w"
proof -
  have "occ_ok w" using assms(1,2) by (simp add: occ_ok_def)
  from run_occ_ok[OF this exits_matched_take[OF assms(3)] assms(4)]
  show ?thesis by (simp add: occ_ok_def)
qed

theorem occupancy_within_capacity_witness:
  "\<exists>w'. run (take 3 [CCallUp 1, CEnter, CExit]) (world_new 5 2 zero_mem) = Inr w' \<and>
        0 \<le> occupancy (elev w') \<and> occupancy (elev w') \<le> capacity (world_new 5 2 zero_mem)"
proof -
  have a: "occupancy (elev (world_new 5 2 zero_mem)) = 0"
    by (simp add: world_new_def Elevator_new_def)
  have b: "0 \<le> capacity (world_new 5 2 zero_mem)"
    by (simp add: world_new_def)
  have c: "exits_matched [CCallUp 1, CEnter, CExit] (world_new 5 2 zero_mem)"
    by (simp add: world_new_def Elevator_new_def Building_new_def CallUp_def Enter_def Exit_def
        Let_def emit_def)
  have "\<exists>w'. run (take 3 [CCallUp 1, CEnter, CExit]) (world_new 5 2 zero_mem) = Inr w'"
    by (simp add: world_new_def Elevator_new_def Building_new_def CallUp_def Enter_def Exit_def
        Let_def emit_def)
  then obtain w' where
    d: "run (take 3 [CCallUp 1, CEnter, CExit]) (world_new 5 2 zero_mem) = Inr w'" ..
  from occupancy_within_capacity[OF a b c d] d show ?thesis by blast
qed

text \<open>
  C5 as stated (arbitrary sequences) fails: an \<^verbatim>\<open>Exit\<close> on the empty fresh elevator runs
  and leaves the occupancy at \<open>- 1\<close>.
\<close>

theorem exit_below_zero:
  "run [CExit] (world_new 5 2 zero_mem) = Inr (Exit (world_new 5 2 zero_mem)) \<and>
   occupancy (elev (world_new 5 2 zero_mem)) = 0 \<and>
   occupancy (elev (Exit (world_new 5 2 zero_mem))) = - 1"
  by (simp add: world_new_def Elevator_new_def Exit_def Let_def emit_def)

subsection \<open>The operating loop\<close>

lemma scan_up_idle:
  "\<forall>j. i \<le> j \<and> j \<le> floorCounts (elev w) \<longrightarrow>
        floorCalledUp (building w) j \<noteq> 1 \<and> floorCalled (elev w) j \<noteq> 1 \<Longrightarrow>
   scan_up env i w = Inr w"
proof (induction env i w rule: scan_up.induct)
  case (1 env i w)
  show ?case
  proof (cases "i \<le> floorCounts (elev w)")
    case True
    with "1.prems" have no: "\<not> (floorCalledUp (building w) i = 1 \<or> floorCalled (elev w) i = 1)"
      by simp
    have "scan_up env (i + 1) w = Inr w"
      using "1.IH"(2)[OF True no] "1.prems" by simp
    then show ?thesis using True no by (subst scan_up.simps) simp
  next
    case False
    then show ?thesis by (subst scan_up.simps) simp
  qed
qed

lemma check_down_first:
  "1 \<le> f \<Longrightarrow> f \<le> i \<Longrightarrow> floorCalledDown (building w) f = 1 \<Longrightarrow>
   \<forall>j. f < j \<and> j \<le> i \<longrightarrow> floorCalledDown (building w) j \<noteq> 1 \<Longrightarrow>
   check_down env i w =
     (case OpenDoors env ((VisitFloor env f w)\<lparr>elev := (elev (VisitFloor env f w))\<lparr>dir := 0\<rparr>\<rparr>) of
        Inl e \<Rightarrow> Inl e
      | Inr w3 \<Rightarrow> Inr (CloseDoors env w3))"
proof (induction env i w rule: check_down.induct)
  case (1 env i w)
  have i1: "1 \<le> i" using "1.prems" by simp
  show ?case
  proof (cases "i = f")
    case True
    then show ?thesis using "1.prems" by (subst check_down.simps) (simp add: Let_def)
  next
    case False
    with "1.prems" have lt: "f < i" by simp
    with "1.prems" have no: "floorCalledDown (building w) i \<noteq> 1" by simp
    have "check_down env (i - 1) w =
      (case OpenDoors env ((VisitFloor env f w)\<lparr>elev := (elev (VisitFloor env f w))\<lparr>dir := 0\<rparr>\<rparr>) of
         Inl e \<Rightarrow> Inl e
       | Inr w3 \<Rightarrow> Inr (CloseDoors env w3))"
      using "1.IH"[OF i1 no] "1.prems" lt by simp
    then show ?thesis using i1 no by (subst check_down.simps) simp
  qed
qed

lemma private_blocking [simp]:
  "currentfloor (elev (blocking env a w)) = currentfloor (elev w)"
  "dir (elev (blocking env a w)) = dir (elev w)"
  "elevatorID (elev (blocking env a w)) = elevatorID (elev w)"
  "registrySize (building (blocking env a w)) = registrySize (building w)"
  "trace (blocking env a w) = trace w @ [a]"
  by (simp_all add: blocking_def suspend_def Let_def emit_def)

lemma private_emit [simp]:
  "elev (emit a w) = elev w" "building (emit a w) = building w"
  "waiters (emit a w) = waiters w" "trace (emit a w) = trace w @ [a]"
  by (simp_all add: emit_def)

lemma VisitFloor_up:
  "currentfloor (elev w) < f \<Longrightarrow>
   VisitFloor env f w =
     (let a = blocking env (AlarmPause (10 * (f - currentfloor (elev w))))
                (emit (Debug (MsgOperating (elevatorID (elev w)) (10 * (f - currentfloor (elev w))))) w)
      in emit (Debug (MsgArrived (elevatorID (elev w)) f))
           (a\<lparr>elev := (elev a)\<lparr>currentfloor := f, floorCalled := (floorCalled (elev a))(f := 0)\<rparr>\<rparr>))"
  by (simp add: VisitFloor_def Let_def)


lemma OpenDoors_down:
  assumes d: "dir (elev w) = 0"
    and r: "0 \<le> currentfloor (elev w)" "currentfloor (elev w) < registrySize (building w)"
  shows "OpenDoors env w =
     Inr (let f = currentfloor (elev w);
              b = emit (Debug (MsgOpenDoors (elevatorID (elev w)) f)) w;
              c = (if 0 < waiters b (ExitBar f) then blocking env (BarSignal (ExitBar f)) b else b);
              d = blocking env (LockAcquire DownIDLock) c;
              e = emit (LockRelease DownIDLock)
                    (d\<lparr>building := (building d)
                        \<lparr>elevatorDownID := (elevatorDownID (building d))(f := elevatorID (elev w))\<rparr>\<rparr>)
          in if 0 < waiters e (EnterBarDown f) then blocking env (BarSignal (EnterBarDown f)) e
             else e)"
proof -
  define f where "f = currentfloor (elev w)"
  define b where "b = emit (Debug (MsgOpenDoors (elevatorID (elev w)) f)) w"
  define c where "c = (if 0 < waiters b (ExitBar f) then blocking env (BarSignal (ExitBar f)) b else b)"
  define d' where "d' = blocking env (LockAcquire DownIDLock) c"
  define e where "e = emit (LockRelease DownIDLock)
                    (d'\<lparr>building := (building d')
                        \<lparr>elevatorDownID := (elevatorDownID (building d'))(f := elevatorID (elev w))\<rparr>\<rparr>)"
  define w0 where "w0 = emit (Debug (MsgOpenDoors (elevatorID (elev w)) (currentfloor (elev w)))) w"
  define w1 where "w1 = (if waiters w0 (ExitBar (currentfloor (elev w0))) > 0
                then blocking env (BarSignal (ExitBar (currentfloor (elev w0)))) w0 else w0)"
  have o: "OpenDoors env w =
     (case getelevID env w1 of
        Inl e \<Rightarrow> Inl e
      | Inr w2 \<Rightarrow>
          (let w3 = (if waiters w2 (EnterBarUp (currentfloor (elev w2))) > 0 \<and> dir (elev w2) = 1
                     then blocking env (BarSignal (EnterBarUp (currentfloor (elev w2)))) w2
                     else w2)
           in Inr (if waiters w3 (EnterBarDown (currentfloor (elev w3))) > 0 \<and> dir (elev w3) = 0
                   then blocking env (BarSignal (EnterBarDown (currentfloor (elev w3)))) w3
                   else w3)))"
    by (simp only: OpenDoors_def Let_def w1_def w0_def)
  have w1c: "w1 = c"
    by (simp add: w1_def w0_def c_def b_def f_def)
  have pc: "dir (elev c) = 0" "currentfloor (elev c) = f" "elevatorID (elev c) = elevatorID (elev w)"
    "registrySize (building c) = registrySize (building w)"
    using d by (simp_all add: c_def b_def f_def)
  have g: "getelevID env c = Inr e"
    using pc r by (simp add: getelevID_def GetDownID_def Let_def e_def d'_def f_def)
  have pe: "dir (elev e) = 0" "currentfloor (elev e) = f"
    using pc by (simp_all add: e_def d'_def)
  have "OpenDoors env w =
          Inr (if 0 < waiters e (EnterBarDown f) then blocking env (BarSignal (EnterBarDown f)) e
               else e)"
    by (simp add: o w1c g pe Let_def)
  then show ?thesis
    by (simp only: Let_def flip: f_def b_def c_def d'_def e_def)
qed

lemma dir_already: "dir (elev w) = x \<Longrightarrow> w\<lparr>elev := (elev w)\<lparr>dir := x\<rparr>\<rparr> = w"
  by auto

text \<open>
  The up-pass of a car at floor 1 whose only request is a down-call at floor \<open>f\<close>: the
  first loop visits nothing, the second stops at \<open>f\<close>, turns the direction and opens the
  doors.
\<close>

lemma up_pass_to_down_call:
  assumes cf: "currentfloor (elev w) = 1" and up: "dir (elev w) = 1"
    and n: "1 \<le> f" "f \<le> floorCounts (elev w)"
    and call: "floorCalledDown (building w) f = 1"
    and nodown: "\<forall>j. f < j \<and> j \<le> floorCounts (elev w) \<longrightarrow> floorCalledDown (building w) j \<noteq> 1"
    and noup: "\<forall>j. 1 < j \<and> j \<le> floorCounts (elev w) \<longrightarrow>
                 floorCalledUp (building w) j \<noteq> 1 \<and> floorCalled (elev w) j \<noteq> 1"
  shows "Operating_pass env w =
     (case OpenDoors env ((VisitFloor env f w)\<lparr>elev := (elev (VisitFloor env f w))\<lparr>dir := 0\<rparr>\<rparr>) of
        Inl e \<Rightarrow> Inl e
      | Inr w3 \<Rightarrow> Inr ((CloseDoors env w3)\<lparr>elev := (elev (CloseDoors env w3))\<lparr>dir := 0\<rparr>\<rparr>))"
proof -
  have s: "scan_up env (currentfloor (elev w) + 1) w = Inr w"
    using noup cf by (intro scan_up_idle) simp
  have c: "check_down env (floorCounts (elev w)) w =
     (case OpenDoors env ((VisitFloor env f w)\<lparr>elev := (elev (VisitFloor env f w))\<lparr>dir := 0\<rparr>\<rparr>) of
        Inl e \<Rightarrow> Inl e
      | Inr w3 \<Rightarrow> Inr (CloseDoors env w3))"
    using n call nodown by (intro check_down_first) simp_all
  show ?thesis
    using up by (simp add: Operating_pass_def Operating_up_def s c split: sum.splits)
qed

text \<open>
  The same pass written out, when floor 4 is an index of the registry (a building of five
  floors or more). Whatever the other threads do while the elevator's thread is suspended,
  the pass is this straight line: pause 30 units, arrive at floor 4, set the direction to
  down, announce the open doors, signal the exit barrier of floor 4 if riders wait there,
  register the car in \<^verbatim>\<open>elevatorDownID[4]\<close> under the down-registry lock, signal the
  down entry barrier of floor 4 if riders wait there, yield, announce the closed doors.
  It ends at floor 4 with direction down; the up-registry and the up entry barrier are
  not touched.
\<close>

theorem direction_reversal:
  assumes cf: "currentfloor (elev w) = 1" and up: "dir (elev w) = 1"
    and n: "4 \<le> floorCounts (elev w)" and r: "4 < registrySize (building w)"
    and call: "floorCalledDown (building w) 4 = 1"
    and nodown: "\<forall>j. 4 < j \<and> j \<le> floorCounts (elev w) \<longrightarrow> floorCalledDown (building w) j \<noteq> 1"
    and noup: "\<forall>j. 1 < j \<and> j \<le> floorCounts (elev w) \<longrightarrow>
                 floorCalledUp (building w) j \<noteq> 1 \<and> floorCalled (elev w) j \<noteq> 1"
  shows "(let ident = elevatorID (elev w);
              a = blocking env (AlarmPause 30) (emit (Debug (MsgOperating ident 30)) w);
              v = emit (Debug (MsgArrived ident 4))
                    (a\<lparr>elev := (elev a)\<lparr>currentfloor := 4,
                                         floorCalled := (floorCalled (elev a))(4 := 0)\<rparr>\<rparr>);
              b = emit (Debug (MsgOpenDoors ident 4)) (v\<lparr>elev := (elev v)\<lparr>dir := 0\<rparr>\<rparr>);
              c = (if 0 < waiters b (ExitBar 4) then blocking env (BarSignal (ExitBar 4)) b else b);
              d = blocking env (LockAcquire DownIDLock) c;
              e = emit (LockRelease DownIDLock)
                    (d\<lparr>building := (building d)
                        \<lparr>elevatorDownID := (elevatorDownID (building d))(4 := ident)\<rparr>\<rparr>);
              f = (if 0 < waiters e (EnterBarDown 4)
                   then blocking env (BarSignal (EnterBarDown 4)) e else e);
              g = emit (Debug (MsgCloseDoors ident 4)) (blocking env ThreadYield f)
          in Operating_pass env w = Inr g \<and>
             currentfloor (elev g) = 4 \<and> dir (elev g) = 0 \<and>
             trace g =
               trace w @
               [Debug (MsgOperating ident 30), AlarmPause 30, Debug (MsgArrived ident 4),
                Debug (MsgOpenDoors ident 4)] @
               (if 0 < waiters b (ExitBar 4) then [BarSignal (ExitBar 4)] else []) @
               [LockAcquire DownIDLock, LockRelease DownIDLock] @
               (if 0 < waiters e (EnterBarDown 4) then [BarSignal (EnterBarDown 4)] else []) @
               [ThreadYield, Debug (MsgCloseDoors ident 4)])"
proof -
  define ident where "ident = elevatorID (elev w)"
  define a where "a = blocking env (AlarmPause 30) (emit (Debug (MsgOperating ident 30)) w)"
  define v where "v = emit (Debug (MsgArrived ident 4))
                    (a\<lparr>elev := (elev a)\<lparr>currentfloor := 4,
                                         floorCalled := (floorCalled (elev a))(4 := 0)\<rparr>\<rparr>)"
  define v' where "v' = v\<lparr>elev := (elev v)\<lparr>dir := 0\<rparr>\<rparr>"
  define b where "b = emit (Debug (MsgOpenDoors ident 4)) v'"
  define c where "c = (if 0 < waiters b (ExitBar 4) then blocking env (BarSignal (ExitBar 4)) b else b)"
  define d where "d = blocking env (LockAcquire DownIDLock) c"
  define e where "e = emit (LockRelease DownIDLock)
                    (d\<lparr>building := (building d)
                        \<lparr>elevatorDownID := (elevatorDownID (building d))(4 := ident)\<rparr>\<rparr>)"
  define f where "f = (if 0 < waiters e (EnterBarDown 4)
                   then blocking env (BarSignal (EnterBarDown 4)) e else e)"
  define g where "g = emit (Debug (MsgCloseDoors ident 4)) (blocking env ThreadYield f)"
  have vf: "VisitFloor env 4 w = v"
    using VisitFloor_up[of w 4 env] cf by (simp add: Let_def v_def a_def ident_def)
  have pa: "registrySize (building a) = registrySize (building w)"
    "elevatorID (elev a) = ident" "trace a = trace w @ [Debug (MsgOperating ident 30), AlarmPause 30]"
    by (simp_all add: a_def ident_def)
  have pv: "dir (elev v') = 0" "currentfloor (elev v') = 4" "elevatorID (elev v') = ident"
    "registrySize (building v') = registrySize (building w)"
    "trace v' = trace w @ [Debug (MsgOperating ident 30), AlarmPause 30, Debug (MsgArrived ident 4)]"
    using pa by (simp_all add: v'_def v_def)
  have od: "OpenDoors env v' = Inr f"
    using OpenDoors_down[of v' env] pv r
    by (simp add: Let_def f_def e_def d_def c_def b_def)
  have tb: "trace b = trace v' @ [Debug (MsgOpenDoors ident 4)]"
    by (simp add: b_def)
  have pb: "currentfloor (elev b) = 4" "dir (elev b) = 0" "elevatorID (elev b) = ident"
    using pv by (simp_all add: b_def)
  have tc: "trace c = trace b @ (if 0 < waiters b (ExitBar 4) then [BarSignal (ExitBar 4)] else [])"
    by (simp add: c_def)
  have pc: "currentfloor (elev c) = 4" "dir (elev c) = 0" "elevatorID (elev c) = ident"
    using pb by (simp_all add: c_def)
  have te: "trace e = trace c @ [LockAcquire DownIDLock, LockRelease DownIDLock]"
    by (simp add: e_def d_def)
  have pe: "currentfloor (elev e) = 4" "dir (elev e) = 0" "elevatorID (elev e) = ident"
    using pc by (simp_all add: e_def d_def)
  have tf: "trace f = trace e @
      (if 0 < waiters e (EnterBarDown 4) then [BarSignal (EnterBarDown 4)] else [])"
    by (simp add: f_def)
  have pf: "currentfloor (elev f) = 4" "dir (elev f) = 0" "elevatorID (elev f) = ident"
    using pe by (simp_all add: f_def)
  have cd: "CloseDoors env f = g"
    using pf by (simp add: CloseDoors_def Let_def g_def)
  have pg: "currentfloor (elev g) = 4" "dir (elev g) = 0"
    using pf by (simp_all add: g_def)
  have tg: "trace g = trace f @ [ThreadYield, Debug (MsgCloseDoors ident 4)]"
    by (simp add: g_def)
  have "Operating_pass env w = Inr (g\<lparr>elev := (elev g)\<lparr>dir := 0\<rparr>\<rparr>)"
    using up_pass_to_down_call[of w 4 env] cf up n call nodown noup
    by (simp add: vf od cd flip: v'_def)
  then have p: "Operating_pass env w = Inr g"
    using dir_already[OF pg(2)] by simp
  have t: "trace g =
               trace w @
               [Debug (MsgOperating ident 30), AlarmPause 30, Debug (MsgArrived ident 4),
                Debug (MsgOpenDoors ident 4)] @
               (if 0 < waiters b (ExitBar 4) then [BarSignal (ExitBar 4)] else []) @
               [LockAcquire DownIDLock, LockRelease DownIDLock] @
               (if 0 < waiters e (EnterBarDown 4) then [BarSignal (EnterBarDown 4)] else []) @
               [ThreadYield, Debug (MsgCloseDoors ident 4)]"
    by (simp only: tg tf te tc tb pv(5) append_assoc append_Cons append_Nil)
  have "Operating_pass env w = Inr g \<and> currentfloor (elev g) = 4 \<and> dir (elev g) = 0 \<and>
        trace g =
               trace w @
               [Debug (MsgOperating ident 30), AlarmPause 30, Debug (MsgArrived ident 4),
                Debug (MsgOpenDoors ident 4)] @
               (if 0 < waiters b (ExitBar 4) then [BarSignal (ExitBar 4)] else []) @
               [LockAcquire DownIDLock, LockRelease DownIDLock] @
               (if 0 < waiters e (EnterBarDown 4) then [BarSignal (EnterBarDown 4)] else []) @
               [ThreadYield, Debug (MsgCloseDoors ident 4)]"
    using p pg t by blast
  then show ?thesis
    by (simp only: Let_def flip: ident_def a_def v_def v'_def b_def c_def d_def e_def f_def g_def)
qed

theorem direction_reversal_witness:
  "currentfloor (elev down_call_at_4) = 1 \<and> dir (elev down_call_at_4) = 1 \<and>
   floorCounts (elev down_call_at_4) = 5 \<and> registrySize (building down_call_at_4) = 5 \<and>
   floorCalledDown (building down_call_at_4) 4 = 1 \<and>
   (\<exists>g. Operating_pass late_caller down_call_at_4 = Inr g \<and>
        currentfloor (elev g) = 4 \<and> dir (elev g) = 0 \<and>
        trace g =
          trace down_call_at_4 @
          [Debug (MsgOperating 0 30), AlarmPause 30, Debug (MsgArrived 0 4),
           Debug (MsgOpenDoors 0 4), LockAcquire DownIDLock, LockRelease DownIDLock,
           ThreadYield, Debug (MsgCloseDoors 0 4)])"
proof -
  have h: "currentfloor (elev down_call_at_4) = 1" "dir (elev down_call_at_4) = 1"
    "floorCounts (elev down_call_at_4) = 5" "registrySize (building down_call_at_4) = 5"
    "floorCalledDown (building down_call_at_4) 4 = 1"
    "\<forall>j. 4 < j \<and> j \<le> floorCounts (elev down_call_at_4) \<longrightarrow>
         floorCalledDown (building down_call_at_4) j \<noteq> 1"
    "\<forall>j. 1 < j \<and> j \<le> floorCounts (elev down_call_at_4) \<longrightarrow>
         floorCalledUp (building down_call_at_4) j \<noteq> 1 \<and>
         floorCalled (elev down_call_at_4) j \<noteq> 1"
    "elevatorID (elev down_call_at_4) = 0" "waiters down_call_at_4 = (\<lambda>b. 0)"
    by (simp_all add: down_call_at_4_def world_new_def Elevator_new_def Building_new_def
        CallDown_def Let_def clear_from_eq zero_mem_def)
  have q: "waiters (blocking late_caller x u) = waiters u" for x u
    by (simp add: blocking_def suspend_def late_caller_def CallUp_def Let_def)
  from direction_reversal [of down_call_at_4 late_caller] h
  show ?thesis
    by (simp add: Let_def q)
qed


end
